theory Spec2Isabelle
  imports Main "HOL-Library.Word" "HOL-Library.AList" "HOL-Library.Sublist"
begin

section \<open>Data model\<close>

text \<open>
  Go strings and byte slices are sequences of bytes; both are modelled as \<open>string\<close>
  (a list of 8-bit characters). Go's \<open>int\<close> and \<open>int64\<close> are 64-bit words, read
  as two's complement by \<open>sint\<close>. A reply channel is identified by a number.
\<close>

type_synonym bytes = string
type_synonym goint = "64 word"
type_synonym chan = nat

text \<open>Errors of \<open>golang.org/x/crypto/bcrypt\<close> (an external library).\<close>

datatype bcrypt_error =
    ErrMismatchedHashAndPassword
  | ErrHashTooShort
  | InvalidHashPrefixError
  | InvalidCostError goint
  | ErrEntropy

text \<open>The error values of authdata.go and memoryservice.go, and errors passed on from bcrypt.\<close>

datatype error =
    ErrUserDoesNotExist
  | ErrUserExists
  | ErrAuthenticationFailed
  | ErrNoTransaction
  | ErrBcrypt bcrypt_error

text \<open>
  The three functions of the bcrypt library that the store calls. The library is not part
  of the repository, so the store is modelled over any implementation of them.
  \<open>GenerateFromPassword\<close> draws a random salt; the drawn bytes are its first argument.
  \<open>CompareHashAndPassword\<close> returns \<open>None\<close> (Go's nil) when the password matches.
\<close>

record bcrypt =
  GenerateFromPassword :: "bytes \<Rightarrow> bytes \<Rightarrow> goint \<Rightarrow> bcrypt_error + bytes"
  CompareHashAndPassword :: "bytes \<Rightarrow> bytes \<Rightarrow> bcrypt_error option"
  Cost :: "bytes \<Rightarrow> bcrypt_error + goint"

text \<open>The cost constants of the bcrypt library.\<close>

definition MinCost :: goint where "MinCost = 4"
definition MaxCost :: goint where "MaxCost = 31"
definition DefaultCost :: goint where "DefaultCost = 10"

text \<open>authdata.go: \<open>type authData struct { data map[string][]byte }\<close>. The map is kept as an
  association list; lookups go through \<open>map_of\<close>, assignments through \<open>AList.update\<close>.\<close>

record authData =
  data :: "(string \<times> bytes) list"

definition newAuthData :: authData where
  "newAuthData = \<lparr> data = [] \<rparr>"

text \<open>memoryservice.go / part_001: \<open>type Entry struct { Username string; PasswordHash []byte }\<close>.\<close>

record Entry =
  Username :: string
  PasswordHash :: bytes

text \<open>The loop of \<open>msgList\<close> over a dataset: one entry per key. Go leaves the order of
  the iteration open; here it is the order of the association list.\<close>

definition entries_of :: "(string \<times> bytes) list \<Rightarrow> Entry list" where
  "entries_of al = map (\<lambda>(user, passHash). \<lparr>Username = user, PasswordHash = passHash\<rparr>) al"

text \<open>The message structs of memoryservice.go; the last field of a replying message is its
  reply channel \<open>r\<close>.\<close>

datatype msg =
    msgAuthenticate string string chan
  | msgDelete string chan
  | msgAdd string string chan
  | msgModify string string chan
  | msgVerifyModify string string string chan
  | msgStartLoad
  | msgLoad string bytes chan
  | msgCommit
  | msgRollback goint
  | msgGetCost chan
  | msgSetCost goint
  | msgList chan

text \<open>What is sent on a reply channel: an error (or nil), a cost, or a list of entries.\<close>

datatype reply =
    RErr "error option"
  | RCost goint
  | RList "Entry list"

section \<open>authdata.go\<close>

text \<open>Each method returns the updated dataset and the value it sends on \<open>m.r\<close>.\<close>

definition delete :: "authData \<Rightarrow> string \<Rightarrow> authData \<times> error option" where
  "delete ad username =
     (case map_of (data ad) username of
        Some _ \<Rightarrow> (ad\<lparr>data := AList.delete username (data ad)\<rparr>, None)
      | None \<Rightarrow> (ad, Some ErrUserDoesNotExist))"

definition add :: "bcrypt \<Rightarrow> bytes \<Rightarrow> authData \<Rightarrow> string \<Rightarrow> string \<Rightarrow> goint
                   \<Rightarrow> authData \<times> error option" where
  "add bc rnd ad username password cost =
     (case map_of (data ad) username of
        Some _ \<Rightarrow> (ad, Some ErrUserExists)
      | None \<Rightarrow>
          (case GenerateFromPassword bc rnd password cost of
             Inr bhash \<Rightarrow> (ad\<lparr>data := AList.update username bhash (data ad)\<rparr>, None)
           | Inl err \<Rightarrow> (ad, Some (ErrBcrypt err))))"

definition modify :: "bcrypt \<Rightarrow> bytes \<Rightarrow> authData \<Rightarrow> string \<Rightarrow> string \<Rightarrow> goint
                      \<Rightarrow> authData \<times> error option" where
  "modify bc rnd ad username password cost =
     (case map_of (data ad) username of
        Some _ \<Rightarrow>
          (case GenerateFromPassword bc rnd password cost of
             Inr bhash \<Rightarrow> (ad\<lparr>data := AList.update username bhash (data ad)\<rparr>, None)
           | Inl err \<Rightarrow> (ad, Some (ErrBcrypt err)))
      | None \<Rightarrow> (ad, Some ErrUserDoesNotExist))"

definition verifyModify :: "bcrypt \<Rightarrow> bytes \<Rightarrow> authData \<Rightarrow> string \<Rightarrow> string \<Rightarrow> string \<Rightarrow> goint
                            \<Rightarrow> authData \<times> error option" where
  "verifyModify bc rnd ad username oldpassword newpassword cost =
     (case map_of (data ad) username of
        None \<Rightarrow> (ad, Some ErrUserDoesNotExist)
      | Some pass \<Rightarrow>
          if CompareHashAndPassword bc pass oldpassword \<noteq> None
          then (ad, Some ErrAuthenticationFailed)
          else (case GenerateFromPassword bc rnd newpassword cost of
                  Inl err \<Rightarrow> (ad, Some (ErrBcrypt err))
                | Inr bhash \<Rightarrow> (ad\<lparr>data := AList.update username bhash (data ad)\<rparr>, None)))"

definition authenticate :: "bcrypt \<Rightarrow> bytes \<Rightarrow> authData \<Rightarrow> string \<Rightarrow> string \<Rightarrow> goint
                            \<Rightarrow> authData \<times> error option" where
  "authenticate bc rnd ad username password cost =
     (case map_of (data ad) username of
        None \<Rightarrow> (ad, Some ErrUserDoesNotExist)
      | Some pass \<Rightarrow>
          if CompareHashAndPassword bc pass password \<noteq> None
          then (ad, Some ErrAuthenticationFailed)
          else
            (case Cost bc pass of
               Inr pcost \<Rightarrow>
                 if pcost <s cost
                 then (case GenerateFromPassword bc rnd password cost of
                         Inr bhash \<Rightarrow> (ad\<lparr>data := AList.update username bhash (data ad)\<rparr>, None)
                       | Inl _ \<Rightarrow> (ad, None))
                 else (ad, None)
             | Inl _ \<Rightarrow> (ad, None)))"

section \<open>The delayed-replay buffer (MsgBuffer)\<close>

text \<open>
  The goroutine of \<open>MsgBuffer\<close> keeps \<open>flushwait\<close> and \<open>buffer\<close>. It receives either
  the timer's \<open>bufferFlush\<close> or any other value, which it appends to the buffer. Handling a
  message returns the new state and the values it hands over for sending on \<open>out\<close>.
\<close>

record mbuf =
  flushwait :: bool
  buffer :: "msg list"

datatype bufmsg = bufferFlush | Item msg

fun MsgBuffer :: "mbuf \<Rightarrow> bufmsg \<Rightarrow> mbuf \<times> msg list" where
  "MsgBuffer b bufferFlush =
     (if length (buffer b) > 0
      then (b\<lparr>flushwait := False, buffer := []\<rparr>, buffer b)
      else (b\<lparr>flushwait := False\<rparr>, []))"
| "MsgBuffer b (Item m) = (b\<lparr>flushwait := True, buffer := buffer b @ [m]\<rparr>, [])"

section \<open>memoryservice.go: the runner\<close>

text \<open>
  The local variables of \<open>runner\<close>, the heap of datasets that \<open>curData\<close> and \<open>loadData\<close>
  point into (address 0 is nil, \<open>nextp\<close> is the next unused address), and the state of the
  replay buffer.
\<close>

record state =
  cost :: goint
  inLoad :: bool
  loadData :: nat
  txid :: goint
  curData :: nat
  heap :: "nat \<Rightarrow> authData option"
  nextp :: nat
  msgBuffer :: mbuf

text \<open>What the environment supplies to one iteration: the clock reading of
  \<open>time.Now().UnixNano()\<close> and the random bytes that bcrypt draws.\<close>

record env =
  now :: goint
  rand :: bytes

definition init :: state where
  "init = \<lparr> cost = DefaultCost, inLoad = False, loadData = 0, txid = 0, curData = 1,
            heap = (\<lambda>_. None)(1 := Some newAuthData), nextp = 2,
            msgBuffer = \<lparr> flushwait = False, buffer = [] \<rparr> \<rparr>"

text \<open>\<open>if inLoad { msgBuffer <- m }\<close>\<close>

definition capture :: "state \<Rightarrow> msg \<Rightarrow> state" where
  "capture s m = (if inLoad s then s\<lparr>msgBuffer := fst (MsgBuffer (msgBuffer s) (Item m))\<rparr> else s)"

text \<open>A method call on \<open>curData\<close>: the dataset it points to is updated in place and the reply
  goes to \<open>r\<close>. Dereferencing an address that holds no dataset is a panic (\<open>None\<close>).\<close>

definition setCur :: "state \<Rightarrow> authData \<Rightarrow> state" where
  "setCur s ad = s\<lparr>heap := (heap s)(curData s := Some ad)\<rparr>"

definition onCur :: "state \<Rightarrow> chan \<Rightarrow> (authData \<Rightarrow> authData \<times> error option)
                     \<Rightarrow> (state \<times> (chan \<times> reply) list) option" where
  "onCur s r f =
     (case heap s (curData s) of
        None \<Rightarrow> None
      | Some ad \<Rightarrow> (case f ad of (ad', e) \<Rightarrow> Some (setCur s ad', [(r, RErr e)])))"

text \<open>One iteration of the loop \<open>for m := range service.c\<close>: the new state and the replies sent.\<close>

fun step :: "bcrypt \<Rightarrow> env \<Rightarrow> state \<Rightarrow> msg \<Rightarrow> (state \<times> (chan \<times> reply) list) option" where
  "step bc e s (msgAuthenticate u p r) =
     onCur s r (\<lambda>ad. authenticate bc (rand e) ad u p (cost s))"
| "step bc e s (msgDelete u r) =
     onCur (capture s (msgDelete u r)) r (\<lambda>ad. delete ad u)"
| "step bc e s (msgAdd u p r) =
     onCur (capture s (msgAdd u p r)) r (\<lambda>ad. add bc (rand e) ad u p (cost s))"
| "step bc e s (msgModify u p r) =
     onCur (capture s (msgModify u p r)) r (\<lambda>ad. modify bc (rand e) ad u p (cost s))"
| "step bc e s (msgVerifyModify u p q r) =
     onCur (capture s (msgVerifyModify u p q r)) r
       (\<lambda>ad. verifyModify bc (rand e) ad u p q (cost s))"
| "step bc e s msgStartLoad =
     Some (s\<lparr>inLoad := True, loadData := nextp s,
              heap := (heap s)(nextp s := Some newAuthData),
              nextp := Suc (nextp s), txid := now e\<rparr>, [])"
| "step bc e s (msgRollback t) =
     (if inLoad s \<and> (t = 0 \<or> (t = txid s \<and> txid s \<noteq> 0))
      then Some (s\<lparr>inLoad := False, loadData := 0, txid := 0\<rparr>, [])
      else Some (s, []))"
| "step bc e s msgCommit =
     (if inLoad s
      then Some (s\<lparr>curData := loadData s, inLoad := False, txid := 0\<rparr>, [])
      else Some (s, []))"
| "step bc e s (msgLoad u h r) =
     (if inLoad s
      then (case heap s (loadData s) of
              None \<Rightarrow> None
            | Some ad \<Rightarrow>
                Some (s\<lparr>heap := (heap s)(loadData s := Some (ad\<lparr>data := AList.update u h (data ad)\<rparr>))\<rparr>,
                      [(r, RErr None)]))
      else Some (s, [(r, RErr (Some ErrNoTransaction))]))"
| "step bc e s (msgGetCost r) = Some (s, [(r, RCost (cost s))])"
| "step bc e s (msgSetCost c) = Some (s\<lparr>cost := c\<rparr>, [])"
| "step bc e s (msgList r) =
     (case heap s (curData s) of
        None \<Rightarrow> None
      | Some ad \<Rightarrow>
          Some (s, [(r, RList (entries_of (data ad)))]))"

text \<open>The loop over a sequence of received messages, collecting the replies in order.\<close>

fun run :: "bcrypt \<Rightarrow> state \<Rightarrow> (env \<times> msg) list \<Rightarrow> (state \<times> (chan \<times> reply) list) option" where
  "run bc s [] = Some (s, [])"
| "run bc s ((e, m) # ms) =
     (case step bc e s m of
        None \<Rightarrow> None
      | Some (s', out) \<Rightarrow>
          (case run bc s' ms of
             None \<Rightarrow> None
           | Some (s'', out') \<Rightarrow> Some (s'', out @ out')))"

text \<open>The active dataset: what \<open>Authenticate\<close> and \<open>List\<close> read.\<close>

definition active :: "state \<Rightarrow> (string \<times> bytes) list" where
  "active s = (case heap s (curData s) of Some ad \<Rightarrow> data ad | None \<Rightarrow> [])"

text \<open>The pending dataset of a load transaction.\<close>

definition pending :: "state \<Rightarrow> (string \<times> bytes) list" where
  "pending s = (case heap s (loadData s) of Some ad \<Rightarrow> data ad | None \<Rightarrow> [])"

text \<open>
  The states the runner can be in: \<open>curData\<close> points to a dataset, and while a load is
  pending \<open>loadData\<close> points to a dataset of its own; unused addresses are empty.
\<close>

definition wf_state :: "state \<Rightarrow> bool" where
  "wf_state s \<longleftrightarrow>
     heap s 0 = None \<and> (\<forall>p. nextp s \<le> p \<longrightarrow> heap s p = None) \<and>
     0 < curData s \<and> curData s < nextp s \<and> heap s (curData s) \<noteq> None \<and>
     (inLoad s \<longrightarrow>
        0 < loadData s \<and> loadData s < nextp s \<and> heap s (loadData s) \<noteq> None \<and>
        loadData s \<noteq> curData s)"

section \<open>String functions of the Go library used by provider.go\<close>

text \<open>
  \<open>strings.TrimSpace\<close> removes leading and trailing white space as Unicode defines it. On
  the bytes of a string these are the UTF-8 encodings of the code points accepted by
  \<open>unicode.IsSpace\<close>: tab, line feed, vertical tab, form feed, carriage return, space,
  U+0085, U+00A0, U+1680, U+2000 to U+200A, U+2028, U+2029, U+202F, U+205F and U+3000.
\<close>

definition space_runes :: "string list" where
  "space_runes =
     [[CHR 0x09], [CHR 0x0A], [CHR 0x0B], [CHR 0x0C], [CHR 0x0D], [CHR 0x20],
      [CHR 0xC2, CHR 0x85], [CHR 0xC2, CHR 0xA0],
      [CHR 0xE1, CHR 0x9A, CHR 0x80],
      [CHR 0xE2, CHR 0x80, CHR 0x80], [CHR 0xE2, CHR 0x80, CHR 0x81],
      [CHR 0xE2, CHR 0x80, CHR 0x82], [CHR 0xE2, CHR 0x80, CHR 0x83],
      [CHR 0xE2, CHR 0x80, CHR 0x84], [CHR 0xE2, CHR 0x80, CHR 0x85],
      [CHR 0xE2, CHR 0x80, CHR 0x86], [CHR 0xE2, CHR 0x80, CHR 0x87],
      [CHR 0xE2, CHR 0x80, CHR 0x88], [CHR 0xE2, CHR 0x80, CHR 0x89],
      [CHR 0xE2, CHR 0x80, CHR 0x8A],
      [CHR 0xE2, CHR 0x80, CHR 0xA8], [CHR 0xE2, CHR 0x80, CHR 0xA9],
      [CHR 0xE2, CHR 0x80, CHR 0xAF], [CHR 0xE2, CHR 0x81, CHR 0x9F],
      [CHR 0xE3, CHR 0x80, CHR 0x80]]"

text \<open>The white-space rune a string starts with, or ends with, if any.\<close>

definition leading_space :: "string \<Rightarrow> string option" where
  "leading_space s = find (\<lambda>p. prefix p s) space_runes"

definition trailing_space :: "string \<Rightarrow> string option" where
  "trailing_space s = find (\<lambda>p. suffix p s) space_runes"

function TrimLeft :: "string \<Rightarrow> string" where
  "TrimLeft s = (case leading_space s of None \<Rightarrow> s | Some p \<Rightarrow> TrimLeft (drop (length p) s))"
  by pat_completeness auto
termination
proof (relation "measure length")
  show "wf (measure length)" by simp
next
  fix s p
  assume "leading_space s = Some p"
  then have "p \<in> set space_runes" and "prefix p s"
    by (auto simp: leading_space_def find_Some_iff)
  then have "p \<noteq> []" and "length p \<le> length s"
    by (auto simp: space_runes_def prefix_length_le)
  then show "(drop (length p) s, s) \<in> measure length"
    by (cases p) auto
qed

function TrimRight :: "string \<Rightarrow> string" where
  "TrimRight s =
     (case trailing_space s of None \<Rightarrow> s | Some p \<Rightarrow> TrimRight (take (length s - length p) s))"
  by pat_completeness auto
termination
proof (relation "measure length")
  show "wf (measure length)" by simp
next
  fix s p
  assume "trailing_space s = Some p"
  then have "p \<in> set space_runes" and "suffix p s"
    by (auto simp: trailing_space_def find_Some_iff)
  then have "p \<noteq> []" and "length p \<le> length s"
    by (auto simp: space_runes_def suffix_length_le)
  then show "(take (length s - length p) s, s) \<in> measure length"
    by (cases p) auto
qed

definition TrimSpace :: "string \<Rightarrow> string" where
  "TrimSpace s = TrimRight (TrimLeft s)"

text \<open>\<open>strings.Split(s, sep)\<close> for a separator of one byte.\<close>

fun Split :: "string \<Rightarrow> char \<Rightarrow> string list" where
  "Split [] c = [[]]"
| "Split (x # xs) c =
     (if x = c then [] # Split xs c
      else (case Split xs c of f # fs \<Rightarrow> (x # f) # fs | [] \<Rightarrow> [[x]]))"

text \<open>Decimal digits.\<close>

definition digit :: "nat \<Rightarrow> char" where
  "digit n = ''0123456789'' ! n"

definition is_digit :: "char \<Rightarrow> bool" where
  "is_digit c \<longleftrightarrow> (48::nat) \<le> of_char c \<and> of_char c \<le> (57::nat)"

definition digit_val :: "char \<Rightarrow> nat" where
  "digit_val c = of_char c - 48"

fun dec :: "nat \<Rightarrow> string" where
  "dec n = (if n < 10 then [digit n] else dec (n div 10) @ [digit (n mod 10)])"

declare dec.simps [simp del]

definition digits_val :: "string \<Rightarrow> nat" where
  "digits_val ds = foldl (\<lambda>a c. 10 * a + digit_val c) 0 ds"

text \<open>\<open>strconv.Itoa\<close> on a 64-bit int.\<close>

definition Itoa :: "goint \<Rightarrow> string" where
  "Itoa c = (let v = sint c in if v < 0 then CHR ''-'' # dec (nat (- v)) else dec (nat v))"

text \<open>\<open>strconv.Atoi\<close>: an optional sign, then at least one decimal digit and nothing else;
  a value outside the 64-bit range is an error (\<open>None\<close>).\<close>

definition Atoi :: "string \<Rightarrow> goint option" where
  "Atoi s =
     (let (neg, ds) =
            (case s of
               [] \<Rightarrow> (False, [])
             | c # r \<Rightarrow> if c = CHR ''-'' then (True, r)
                        else if c = CHR ''+'' then (False, r) else (False, s))
      in if ds = [] \<or> \<not> list_all is_digit ds then None
         else let n = int (digits_val ds); v = (if neg then - n else n)
              in if v < - (2 ^ 63) \<or> 2 ^ 63 \<le> v then None else Some (word_of_int v))"

section \<open>provider.go: the file backend\<close>

text \<open>\<open>UsernameIsValid\<close>; indexing the empty string at \<open>l[0]\<close> is a panic (\<open>None\<close>).\<close>

definition UsernameIsValid :: "string \<Rightarrow> bool option" where
  "UsernameIsValid username =
     (let l = TrimSpace username
      in case l of
           [] \<Rightarrow> None
         | c # _ \<Rightarrow>
             if c = CHR ''$'' \<or> c = CHR ''#'' then Some False
             else if CHR '':'' \<in> set l then Some False
             else Some True)"

text \<open>\<open>r.ReadString('\n')\<close> in a loop until EOF: the lines of the file, each with its line
  feed; what follows the last line feed is read together with EOF and dropped.\<close>

fun ReadLines :: "string \<Rightarrow> string \<Rightarrow> string list" where
  "ReadLines acc [] = []"
| "ReadLines acc (c # cs) =
     (if c = CHR 0x0A then (acc @ [c]) # ReadLines [] cs else ReadLines (acc @ [c]) cs)"

text \<open>The body of the loop of \<open>readFile\<close> for one line: the calls it makes on the
  authentication service, as the messages they send (\<open>r\<close> is the reply channel that
  \<open>Load\<close> makes).\<close>

definition loadFields :: "chan \<Rightarrow> string \<Rightarrow> msg list" where
  "loadFields r lineTrimmed =
     (let fields = Split lineTrimmed CHR '':''
      in if length fields \<noteq> 2 then [] else [msgLoad (fields ! 0) (fields ! 1) r])"

definition readLine :: "chan \<Rightarrow> string \<Rightarrow> msg list" where
  "readLine r line =
     (let lineTrimmed = TrimSpace line
      in if length lineTrimmed < 2 then []
         else if hd lineTrimmed = CHR ''#'' then []
         else if hd lineTrimmed = CHR ''$''
         then (case Atoi (tl lineTrimmed) of
                 None \<Rightarrow> []
               | Some c \<Rightarrow> msgSetCost c # loadFields r lineTrimmed)
         else loadFields r lineTrimmed)"

fun readLoop :: "chan \<Rightarrow> string list \<Rightarrow> msg list" where
  "readLoop r [] = []"
| "readLoop r (l # ls) = readLine r l @ readLoop (Suc r) ls"

definition readFile :: "chan \<Rightarrow> string \<Rightarrow> msg list" where
  "readFile r file = msgStartLoad # readLoop r (ReadLines [] file) @ [msgCommit]"

text \<open>\<open>writeFile\<close>: the bytes written, from the replies of \<open>GetCost()\<close> and \<open>List()\<close>.\<close>

definition writeFile :: "goint \<Rightarrow> Entry list \<Rightarrow> string" where
  "writeFile c entries =
     CHR ''$'' # Itoa c @ [CHR 0x0A] @
     concat (map (\<lambda>e. Username e @ CHR '':'' # PasswordHash e @ [CHR 0x0A]) entries)"

text \<open>An entry that a line of the file can carry: the username is valid, does not begin
  with white space and holds no line feed; the hash holds no colon and no line feed and does
  not end with white space.\<close>

definition line_safe :: "string \<times> bytes \<Rightarrow> bool" where
  "line_safe = (\<lambda>(u, h).
     UsernameIsValid u = Some True \<and> leading_space u = None \<and> CHR 0x0A \<notin> set u \<and>
     CHR '':'' \<notin> set h \<and> CHR 0x0A \<notin> set h \<and> trailing_space h = None)"

text \<open>The \<open>Load\<close> messages for the entries of a dataset, with consecutive reply channels.\<close>

fun load_msgs :: "chan \<Rightarrow> (string \<times> bytes) list \<Rightarrow> msg list" where
  "load_msgs k [] = []"
| "load_msgs k ((u, h) # al) = msgLoad u h k # load_msgs (Suc k) al"

section \<open>A stand-in for bcrypt\<close>

text \<open>
  A small implementation of the three library functions, used to run the store on concrete
  inputs. It follows the library in what the store can observe of it: a cost below
  \<open>MinCost\<close> is replaced by \<open>DefaultCost\<close>, a cost above \<open>MaxCost\<close> is an error, the
  cost is written into the hash as two decimal digits after the version prefix, and a
  hash that is too short or has another prefix does not decode. The digest itself is
  replaced by the password.
\<close>

definition toy_Generate :: "bytes \<Rightarrow> bytes \<Rightarrow> goint \<Rightarrow> bcrypt_error + bytes" where
  "toy_Generate rnd password c =
     (let c' = (if c <s MinCost then DefaultCost else c)
      in if c' <s MinCost \<or> MaxCost <s c' then Inl (InvalidCostError c')
         else let n = nat (sint c')
              in Inr (''$2a$'' @ [digit (n div 10), digit (n mod 10)] @ ''$'' @ password))"

definition toy_Cost :: "bytes \<Rightarrow> bcrypt_error + goint" where
  "toy_Cost h =
     (if length h < 7 then Inl ErrHashTooShort
      else if take 4 h \<noteq> ''$2a$'' \<or> h ! 6 \<noteq> CHR ''$'' then Inl InvalidHashPrefixError
      else if \<not> (is_digit (h ! 4) \<and> is_digit (h ! 5)) then Inl (InvalidCostError 0)
      else let c = of_nat (10 * digit_val (h ! 4) + digit_val (h ! 5))
           in if c <s MinCost \<or> MaxCost <s c then Inl (InvalidCostError c) else Inr c)"

definition toy_Compare :: "bytes \<Rightarrow> bytes \<Rightarrow> bcrypt_error option" where
  "toy_Compare h password =
     (case toy_Cost h of
        Inl err \<Rightarrow> Some err
      | Inr _ \<Rightarrow> if drop 7 h = password then None else Some ErrMismatchedHashAndPassword)"

definition toy_bcrypt :: bcrypt where
  "toy_bcrypt = \<lparr> GenerateFromPassword = toy_Generate,
                  CompareHashAndPassword = toy_Compare,
                  Cost = toy_Cost \<rparr>"

section \<open>Properties of a bcrypt implementation, and validity of stored hashes\<close>

text \<open>A generated hash verifies the password it was generated from.\<close>

definition bcrypt_verifies :: "bcrypt \<Rightarrow> bool" where
  "bcrypt_verifies bc \<longleftrightarrow>
     (\<forall>rnd p c h. GenerateFromPassword bc rnd p c = Inr h \<longrightarrow> CompareHashAndPassword bc h p = None)"

text \<open>A hash is valid when it decodes to a cost that is at least \<open>MinCost\<close>.\<close>

definition hash_valid :: "bcrypt \<Rightarrow> bytes \<Rightarrow> bool" where
  "hash_valid bc h = (case Cost bc h of Inr c \<Rightarrow> MinCost \<le>s c | Inl _ \<Rightarrow> False)"

text \<open>A generated hash is valid.\<close>

definition bcrypt_costs :: "bcrypt \<Rightarrow> bool" where
  "bcrypt_costs bc \<longleftrightarrow>
     (\<forall>rnd p c h. GenerateFromPassword bc rnd p c = Inr h \<longrightarrow> hash_valid bc h)"

definition dataset_valid :: "bcrypt \<Rightarrow> (string \<times> bytes) list \<Rightarrow> bool" where
  "dataset_valid bc al = list_all (\<lambda>(u, h). hash_valid bc h) al"

text \<open>Every hash handed to \<open>Load\<close> in a sequence of messages is valid.\<close>

definition loads_valid :: "bcrypt \<Rightarrow> (env \<times> msg) list \<Rightarrow> bool" where
  "loads_valid bc evs =
     list_all (\<lambda>(e, m). case m of msgLoad u h r \<Rightarrow> hash_valid bc h | _ \<Rightarrow> True) evs"

text \<open>Every hash in the active dataset, and in the pending one while a load is pending, is
  valid.\<close>

definition store_valid :: "bcrypt \<Rightarrow> state \<Rightarrow> bool" where
  "store_valid bc s \<longleftrightarrow>
     wf_state s \<and> dataset_valid bc (active s) \<and> (inLoad s \<longrightarrow> dataset_valid bc (pending s))"

section \<open>Concrete inputs\<close>

definition e0 :: env where
  "e0 = \<lparr> now = 1, rand = [] \<rparr>"

text \<open>The store after \<open>Add("bob", "pw")\<close> at the default cost, with the stand-in for bcrypt.\<close>

definition bob_state :: state where
  "bob_state = setCur init \<lparr> data = [(''bob'', ''$2a$10$pw'')] \<rparr>"

text \<open>The store of \<open>bob_state\<close> after \<open>StartLoad()\<close> at clock reading 1.\<close>

definition loading_state :: state where
  "loading_state = bob_state\<lparr>inLoad := True, loadData := 2,
       heap := (heap bob_state)(2 := Some newAuthData), nextp := 3, txid := 1\<rparr>"

text \<open>The store of \<open>loading_state\<close> after \<open>Add("carol", "x")\<close> on reply channel 7 and
  \<open>Rollback()\<close>.\<close>

definition carol_state :: state where
  "carol_state =
     (setCur (capture loading_state (msgAdd ''carol'' ''x'' 7))
        \<lparr>data = [(''bob'', ''$2a$10$pw''), (''carol'', ''$2a$10$x'')]\<rparr>)
     \<lparr>inLoad := False, loadData := 0, txid := 0\<rparr>"

section \<open>Sequences of messages\<close>

text \<open>The timer of \<open>MsgBuffer\<close> fires: the buffer is flushed, every buffered value is sent on
  \<open>out\<close>, which is the runner's channel, and the runner receives them in order.\<close>

definition replay :: "bcrypt \<Rightarrow> env \<Rightarrow> state \<Rightarrow> (state \<times> (chan \<times> reply) list) option" where
  "replay bc e s =
     (case MsgBuffer (msgBuffer s) bufferFlush of
        (b, out) \<Rightarrow> run bc (s\<lparr>msgBuffer := b\<rparr>) (map (Pair e) out))"

text \<open>Messages that start or end a load transaction.\<close>

fun boundary :: "msg \<Rightarrow> bool" where
  "boundary msgStartLoad = True"
| "boundary msgCommit = True"
| "boundary (msgRollback t) = True"
| "boundary m = False"

text \<open>Messages of a load transaction other than \<open>Commit\<close>, and the two reading messages.\<close>

fun uncommitted :: "msg \<Rightarrow> bool" where
  "uncommitted msgStartLoad = True"
| "uncommitted (msgLoad u h r) = True"
| "uncommitted (msgRollback t) = True"
| "uncommitted (msgList r) = True"
| "uncommitted (msgGetCost r) = True"
| "uncommitted m = False"

text \<open>The pairs handed to \<open>Load\<close> in a sequence of messages, in order, and the dataset that
  storing them one after the other builds.\<close>

fun load_pairs :: "(env \<times> msg) list \<Rightarrow> (string \<times> bytes) list" where
  "load_pairs [] = []"
| "load_pairs ((e, msgLoad u h r) # evs) = (u, h) # load_pairs evs"
| "load_pairs (ev # evs) = load_pairs evs"

definition loaded :: "(env \<times> msg) list \<Rightarrow> (string \<times> bytes) list" where
  "loaded evs = fold (\<lambda>(u, h) al. AList.update u h al) (load_pairs evs) []"

section \<open>Basic facts about the runner\<close>

lemma wf_init: "wf_state init"
  by (simp add: wf_state_def init_def)

lemma authData_eta: "\<lparr>data = data (ad::authData)\<rparr> = ad"
  by simp

lemma capture_simps [simp]:
  "cost (capture s m) = cost s" "inLoad (capture s m) = inLoad s"
  "loadData (capture s m) = loadData s" "txid (capture s m) = txid s"
  "curData (capture s m) = curData s" "heap (capture s m) = heap s"
  "nextp (capture s m) = nextp s"
  by (simp_all add: capture_def)

lemma setCur_simps [simp]:
  "cost (setCur s ad) = cost s" "inLoad (setCur s ad) = inLoad s"
  "loadData (setCur s ad) = loadData s" "txid (setCur s ad) = txid s"
  "curData (setCur s ad) = curData s" "nextp (setCur s ad) = nextp s"
  "msgBuffer (setCur s ad) = msgBuffer s"
  by (simp_all add: setCur_def)

lemma capture_wf [simp]: "wf_state (capture s m) = wf_state s"
  by (simp add: wf_state_def)

lemma capture_active [simp]: "active (capture s m) = active s"
  by (simp add: active_def)

lemma capture_pending [simp]: "pending (capture s m) = pending s"
  by (simp add: pending_def)

lemma onCur_eq:
  assumes "wf_state s"
  shows "onCur s r f =
           Some (setCur s (fst (f \<lparr>data = active s\<rparr>)), [(r, RErr (snd (f \<lparr>data = active s\<rparr>)))])"
proof -
  from assms obtain ad where ad: "heap s (curData s) = Some ad"
    by (auto simp: wf_state_def)
  then have "\<lparr>data = active s\<rparr> = ad"
    by (simp add: active_def)
  with ad show ?thesis
    by (simp add: onCur_def split: prod.split)
qed

lemma setCur_wf [simp]: "wf_state s \<Longrightarrow> wf_state (setCur s ad)"
  by (auto simp: wf_state_def setCur_def)

lemma setCur_active [simp]: "active (setCur s ad) = data ad"
  by (simp add: active_def setCur_def)

lemma setCur_same:
  assumes "wf_state s"
  shows "setCur s \<lparr>data = active s\<rparr> = s"
proof -
  from assms obtain ad where ad: "heap s (curData s) = Some ad"
    by (auto simp: wf_state_def)
  then have "\<lparr>data = active s\<rparr> = ad"
    by (simp add: active_def)
  with ad have "(heap s)(curData s := Some \<lparr>data = active s\<rparr>) = heap s"
    by (simp add: fun_upd_idem)
  then show ?thesis
    by (simp add: setCur_def)
qed

lemma setCur_pending [simp]:
  "wf_state s \<Longrightarrow> inLoad s \<Longrightarrow> pending (setCur s ad) = pending s"
  by (auto simp: wf_state_def pending_def setCur_def)

lemma step_wf:
  assumes "wf_state s"
  shows "\<exists>s' out. step bc e s m = Some (s', out) \<and> wf_state s'"
proof (cases m)
  case msgStartLoad
  with assms show ?thesis by (auto simp: wf_state_def)
next
  case (msgLoad u h r)
  with assms show ?thesis by (auto simp: wf_state_def)
next
  case msgCommit
  with assms show ?thesis by (auto simp: wf_state_def)
next
  case (msgRollback t)
  with assms show ?thesis by (auto simp: wf_state_def)
next
  case (msgList r)
  with assms show ?thesis by (auto simp: wf_state_def)
next
  case (msgSetCost c)
  with assms show ?thesis by (auto simp: wf_state_def)
next
  case (msgGetCost r)
  with assms show ?thesis by auto
qed (use assms in \<open>simp_all add: onCur_eq\<close>)

lemma run_wf:
  "wf_state s \<Longrightarrow> \<exists>s' out. run bc s evs = Some (s', out) \<and> wf_state s'"
proof (induction evs arbitrary: s)
  case Nil
  then show ?case by simp
next
  case (Cons ev evs)
  obtain e m where ev: "ev = (e, m)" by (cases ev)
  from step_wf[OF Cons.prems, of bc e m] obtain s1 out1
    where s1: "step bc e s m = Some (s1, out1)" "wf_state s1" by blast
  from Cons.IH[OF s1(2)] obtain s2 out2
    where "run bc s1 evs = Some (s2, out2)" "wf_state s2" by blast
  with s1 ev show ?case by simp
qed

lemma digit_ok: "n < 10 \<Longrightarrow> is_digit (digit n) \<and> digit_val (digit n) = n"
proof -
  assume "n < 10"
  then have "n \<in> {0, 1, 2, 3, 4, 5, 6, 7, 8, 9}" by auto
  then show ?thesis
    by (auto simp: digit_def is_digit_def digit_val_def)
qed

lemma small_cost:
  fixes c :: goint
  assumes "\<not> c <s MinCost" "\<not> MaxCost <s c"
  shows "4 \<le> sint c \<and> sint c \<le> 31"
  using assms by (simp add: MinCost_def MaxCost_def word_sless_alt)

lemma of_nat_sint:
  fixes c :: goint
  assumes "0 \<le> sint c"
  shows "of_nat (nat (sint c)) = c"
  using assms by simp

lemma toy_Generate_Cost:
  assumes "toy_Generate rnd p c = Inr h"
  shows "\<exists>c'. toy_Cost h = Inr c' \<and> MinCost \<le>s c' \<and> drop 7 h = p"
proof -
  define c' where "c' = (if c <s MinCost then DefaultCost else c)"
  from assms have ok: "\<not> c' <s MinCost" "\<not> MaxCost <s c'"
    by (auto simp: toy_Generate_def c'_def Let_def split: if_splits)
  then have r: "4 \<le> sint c'" "sint c' \<le> 31"
    using small_cost by auto
  define n where "n = nat (sint c')"
  from r have n: "4 \<le> n" "n \<le> 31" "n div 10 < 10" "n mod 10 < 10" by (auto simp: n_def)
  from assms ok have h: "h = ''$2a$'' @ [digit (n div 10), digit (n mod 10)] @ ''$'' @ p"
    by (auto simp: toy_Generate_def c'_def n_def Let_def split: if_splits)
  have ofn: "(of_nat n :: goint) = c'"
    using r by (simp add: n_def)
  have "10 * digit_val (digit (n div 10)) + digit_val (digit (n mod 10)) = n"
    using n by (simp add: digit_ok)
  then have "toy_Cost h = Inr c'"
    using n ok by (simp add: h toy_Cost_def digit_ok ofn)
  moreover have "MinCost \<le>s c'" using ok(1) by (simp add: word_sless_alt word_sle_eq)
  ultimately show ?thesis by (simp add: h)
qed

lemma bob_wf: "wf_state bob_state"
  by (simp add: bob_state_def wf_init)

lemma bob_active: "active bob_state = [(''bob'', ''$2a$10$pw'')]"
  by (simp add: bob_state_def)

lemma toy_simps [simp]:
  "GenerateFromPassword toy_bcrypt = toy_Generate"
  "CompareHashAndPassword toy_bcrypt = toy_Compare"
  "Cost toy_bcrypt = toy_Cost"
  by (simp_all add: toy_bcrypt_def)

lemma toy_Cost_10: "toy_Cost ''$2a$10$pw'' = Inr 10"
  by (simp add: toy_Cost_def is_digit_def digit_val_def MinCost_def MaxCost_def word_sless_alt)

lemma toy_Compare_pw:
  "toy_Compare ''$2a$10$pw'' ''pw'' = None"
  "toy_Compare ''$2a$10$pw'' ''no'' = Some ErrMismatchedHashAndPassword"
  by (simp_all add: toy_Compare_def toy_Cost_10)

lemma toy_verifies: "bcrypt_verifies toy_bcrypt"
  unfolding bcrypt_verifies_def
proof (intro allI impI)
  fix rnd p c h
  assume "GenerateFromPassword toy_bcrypt rnd p c = Inr h"
  then have "toy_Generate rnd p c = Inr h" by simp
  from toy_Generate_Cost[OF this] show "CompareHashAndPassword toy_bcrypt h p = None"
    by (auto simp: toy_Compare_def)
qed

lemma toy_costs: "bcrypt_costs toy_bcrypt"
  unfolding bcrypt_costs_def
proof (intro allI impI)
  fix rnd p c h
  assume "GenerateFromPassword toy_bcrypt rnd p c = Inr h"
  then have "toy_Generate rnd p c = Inr h" by simp
  from toy_Generate_Cost[OF this] show "hash_valid toy_bcrypt h"
    by (auto simp: hash_valid_def)
qed

lemma authenticate_match:
  assumes "wf_state s" "map_of (active s) u = Some h" "CompareHashAndPassword bc h p = None"
  shows "\<exists>s'. step bc e s (msgAuthenticate u p r) = Some (s', [(r, RErr None)])"
  using assms by (auto simp: onCur_eq authenticate_def split: sum.splits)

lemma loading_state_run:
  "step toy_bcrypt e0 bob_state msgStartLoad = Some (loading_state, [])"
  by (simp add: loading_state_def bob_state_def init_def setCur_def e0_def)

lemma loading_wf: "wf_state loading_state"
  using step_wf[OF bob_wf, of toy_bcrypt e0 msgStartLoad] unfolding loading_state_run by simp

lemma toy_Generate_12: "toy_Generate [] ''pw'' 12 = Inr ''$2a$12$pw''"
  by (simp add: toy_Generate_def MinCost_def MaxCost_def DefaultCost_def digit_def word_sless_alt)

lemma toy_Generate_x: "toy_Generate [] ''x'' 10 = Inr ''$2a$10$x''"
  by (simp add: toy_Generate_def MinCost_def MaxCost_def DefaultCost_def digit_def word_sless_alt)

lemma loading_active: "active loading_state = [(''bob'', ''$2a$10$pw'')]"
  by (simp add: loading_state_def active_def bob_state_def init_def setCur_def)

lemma add_existing:
  assumes "wf_state s" and "map_of (active s) u = Some h"
  shows "step bc e s (msgAdd u p r)
           = Some (capture s (msgAdd u p r), [(r, RErr (Some ErrUserExists))])"
proof -
  let ?t = "capture s (msgAdd u p r)"
  have wt: "wf_state ?t" using assms(1) by simp
  have same: "setCur ?t \<lparr>data = active s\<rparr> = ?t"
    using setCur_same[OF wt] by simp
  show ?thesis
    using wt assms(2) by (simp add: onCur_eq add_def same)
qed

lemma list_reply:
  assumes "wf_state s"
  shows "step bc e s (msgList r) = Some (s, [(r, RList (entries_of (active s)))])"
  using assms by (auto simp: wf_state_def active_def)

lemma entries_of_pairs: "map (\<lambda>x. (Username x, PasswordHash x)) (entries_of al) = al"
  by (induction al) (auto simp: entries_of_def)

lemma startLoad_step:
  assumes "wf_state s"
  shows "\<exists>s'. step bc e s msgStartLoad = Some (s', []) \<and> wf_state s' \<and> inLoad s'
              \<and> pending s' = [] \<and> active s' = active s \<and> cost s' = cost s"
  using assms by (auto simp: wf_state_def active_def pending_def newAuthData_def)

lemma step_uncommitted:
  assumes "wf_state s" and "uncommitted m"
  shows "\<exists>s' out. step bc e s m = Some (s', out) \<and> wf_state s' \<and> active s' = active s"
  using assms by (cases m) (auto simp: wf_state_def active_def)

lemma run_uncommitted:
  assumes "wf_state s" and "list_all (\<lambda>(e, m). uncommitted m) evs"
  shows "\<exists>s' out. run bc s evs = Some (s', out) \<and> wf_state s' \<and> active s' = active s"
  using assms
proof (induction evs arbitrary: s)
  case Nil
  then show ?case by simp
next
  case (Cons ev evs)
  obtain e m where ev: "ev = (e, m)" by (cases ev)
  with Cons.prems have um: "uncommitted m" and rest: "list_all (\<lambda>(e, m). uncommitted m) evs"
    by auto
  from step_uncommitted[OF Cons.prems(1) um, of bc e] obtain s1 out1
    where s1: "step bc e s m = Some (s1, out1)" "wf_state s1" "active s1 = active s" by blast
  from Cons.IH[OF s1(2) rest] obtain s2 out2
    where "run bc s1 evs = Some (s2, out2)" "wf_state s2" "active s2 = active s1" by blast
  with s1 ev show ?case by simp
qed

lemma run_append:
  "run bc s (xs @ ys) =
     (case run bc s xs of
        None \<Rightarrow> None
      | Some (s', out) \<Rightarrow>
          (case run bc s' ys of None \<Rightarrow> None | Some (s'', out') \<Rightarrow> Some (s'', out @ out')))"
proof (induction xs arbitrary: s)
  case Nil
  then show ?case by (simp split: option.split)
next
  case (Cons ev xs)
  obtain e m where ev: "ev = (e, m)" by (cases ev)
  show ?case
    by (simp add: ev Cons.IH split: option.split)
qed

lemma rollback_zero:
  assumes "wf_state s"
  shows "\<exists>s'. step bc e s (msgRollback 0) = Some (s', []) \<and> wf_state s' \<and> \<not> inLoad s'
            \<and> active s' = active s"
  using assms by (auto simp: wf_state_def active_def)

lemma load_pairs_Cons: "load_pairs (ev # evs) = load_pairs [ev] @ load_pairs evs"
  by (cases "(ev # evs)" rule: load_pairs.cases) auto

lemma step_pending:
  assumes "wf_state s" and "inLoad s" and "\<not> boundary m"
  shows "\<exists>s' out. step bc e s m = Some (s', out) \<and> wf_state s' \<and> inLoad s'
            \<and> pending s' = fold (\<lambda>(u, h) al. AList.update u h al) (load_pairs [(e, m)]) (pending s)"
proof (cases m)
  case (msgLoad u h r)
  with assms show ?thesis by (auto simp: wf_state_def pending_def)
next
  case (msgList r)
  with assms show ?thesis by (auto simp: wf_state_def)
next
  case (msgSetCost c)
  with assms show ?thesis by (auto simp: wf_state_def pending_def)
qed (use assms in \<open>simp_all add: onCur_eq\<close>)

lemma run_pending:
  assumes "wf_state s" and "inLoad s" and "list_all (\<lambda>(e, m). \<not> boundary m) evs"
  shows "\<exists>s' out. run bc s evs = Some (s', out) \<and> wf_state s' \<and> inLoad s'
            \<and> pending s' = fold (\<lambda>(u, h) al. AList.update u h al) (load_pairs evs) (pending s)"
  using assms
proof (induction evs arbitrary: s)
  case Nil
  then show ?case by simp
next
  case (Cons ev evs)
  obtain e m where ev: "ev = (e, m)" by (cases ev)
  with Cons.prems have nb: "\<not> boundary m" and rest: "list_all (\<lambda>(e, m). \<not> boundary m) evs"
    by auto
  from step_pending[OF Cons.prems(1,2) nb, of bc e] obtain s1 out1
    where s1: "step bc e s m = Some (s1, out1)" "wf_state s1" "inLoad s1"
      "pending s1 = fold (\<lambda>(u, h) al. AList.update u h al) (load_pairs [(e, m)]) (pending s)"
    by blast
  from Cons.IH[OF s1(2,3) rest] obtain s2 out2
    where s2: "run bc s1 evs = Some (s2, out2)" "wf_state s2" "inLoad s2"
      "pending s2 = fold (\<lambda>(u, h) al. AList.update u h al) (load_pairs evs) (pending s1)"
    by blast
  have "pending s2 = fold (\<lambda>(u, h) al. AList.update u h al) (load_pairs (ev # evs)) (pending s)"
    by (subst load_pairs_Cons) (simp add: s2(4) s1(4) ev)
  with s1 s2 ev show ?case by simp
qed

lemma commit_step:
  assumes "wf_state s" and "inLoad s"
  shows "\<exists>s'. step bc e s msgCommit = Some (s', []) \<and> wf_state s' \<and> \<not> inLoad s'
            \<and> active s' = pending s \<and> cost s' = cost s"
  using assms by (auto simp: wf_state_def active_def pending_def)

lemma map_of_fold_update:
  "map_of (fold (\<lambda>(u, h) al. AList.update u h al) ps al) = map_of (rev ps @ al)"
proof (induction ps arbitrary: al)
  case Nil
  then show ?case by simp
next
  case (Cons p ps)
  obtain k v where p: "p = (k, v)" by (cases p)
  show ?case
    by (rule ext) (simp add: p Cons.IH update_conv' map_add_def split: option.split)
qed

lemma distinct_fold_update:
  "distinct (map fst al) \<Longrightarrow> distinct (map fst (fold (\<lambda>(u, h) al. AList.update u h al) ps al))"
proof (induction ps arbitrary: al)
  case Nil
  then show ?case by simp
next
  case (Cons p ps)
  obtain k v where p: "p = (k, v)" by (cases p)
  from Cons.prems have "distinct (map fst (AList.update k v al))"
    by (rule distinct_update)
  from Cons.IH[OF this] show ?case by (simp add: p)
qed

lemma update_fresh: "k \<notin> fst ` set al \<Longrightarrow> AList.update k v al = al @ [(k, v)]"
  by (induction al) auto

lemma fold_update_distinct:
  "distinct (map fst ps) \<Longrightarrow> fst ` set ps \<inter> fst ` set al = {} \<Longrightarrow>
   fold (\<lambda>(u, h) al. AList.update u h al) ps al = al @ ps"
proof (induction ps arbitrary: al)
  case Nil
  then show ?case by simp
next
  case (Cons p ps)
  obtain k v where p: "p = (k, v)" by (cases p)
  from Cons.prems p have fresh: "k \<notin> fst ` set al" by auto
  from Cons.prems p have d: "distinct (map fst ps)"
    and disj: "fst ` set ps \<inter> fst ` set (al @ [(k, v)]) = {}"
    by auto
  from Cons.IH[OF d disj] show ?case
    by (simp add: p update_fresh[OF fresh])
qed

lemma dataset_valid_update:
  "dataset_valid bc al \<Longrightarrow> hash_valid bc h \<Longrightarrow> dataset_valid bc (AList.update u h al)"
  by (induction al) (auto simp: dataset_valid_def)

lemma dataset_valid_delete:
  "dataset_valid bc al \<Longrightarrow> dataset_valid bc (AList.delete u al)"
  by (induction al) (auto simp: dataset_valid_def)

lemma delete_valid:
  "dataset_valid bc (data ad) \<Longrightarrow> dataset_valid bc (data (fst (delete ad u)))"
  by (auto simp: delete_def dataset_valid_delete split: option.splits)

lemma add_valid:
  "bcrypt_costs bc \<Longrightarrow> dataset_valid bc (data ad) \<Longrightarrow>
   dataset_valid bc (data (fst (add bc rnd ad u p c)))"
  by (auto simp: add_def bcrypt_costs_def dataset_valid_update split: option.splits sum.splits)

lemma modify_valid:
  "bcrypt_costs bc \<Longrightarrow> dataset_valid bc (data ad) \<Longrightarrow>
   dataset_valid bc (data (fst (modify bc rnd ad u p c)))"
  by (auto simp: modify_def bcrypt_costs_def dataset_valid_update split: option.splits sum.splits)

lemma verifyModify_valid:
  "bcrypt_costs bc \<Longrightarrow> dataset_valid bc (data ad) \<Longrightarrow>
   dataset_valid bc (data (fst (verifyModify bc rnd ad u p q c)))"
  by (auto simp: verifyModify_def bcrypt_costs_def dataset_valid_update
      split: option.splits sum.splits)

lemma authenticate_valid:
  "bcrypt_costs bc \<Longrightarrow> dataset_valid bc (data ad) \<Longrightarrow>
   dataset_valid bc (data (fst (authenticate bc rnd ad u p c)))"
  by (auto simp: authenticate_def bcrypt_costs_def dataset_valid_update
      split: option.splits sum.splits)

lemma step_valid:
  assumes "bcrypt_costs bc" and "store_valid bc s" and "loads_valid bc [(e, m)]"
  shows "\<exists>s' out. step bc e s m = Some (s', out) \<and> store_valid bc s'"
proof -
  from assms(2) have w: "wf_state s" and a: "dataset_valid bc (active s)"
    and p: "inLoad s \<Longrightarrow> dataset_valid bc (pending s)"
    by (auto simp: store_valid_def)
  show ?thesis
  proof (cases m)
    case (msgAuthenticate u pw r)
    then show ?thesis
      using w a p assms(1) by (simp add: onCur_eq store_valid_def authenticate_valid)
  next
    case (msgDelete u r)
    then show ?thesis
      using w a p by (simp add: onCur_eq store_valid_def delete_valid)
  next
    case (msgAdd u pw r)
    then show ?thesis
      using w a p assms(1) by (simp add: onCur_eq store_valid_def add_valid)
  next
    case (msgModify u pw r)
    then show ?thesis
      using w a p assms(1) by (simp add: onCur_eq store_valid_def modify_valid)
  next
    case (msgVerifyModify u pw q r)
    then show ?thesis
      using w a p assms(1) by (simp add: onCur_eq store_valid_def verifyModify_valid)
  next
    case msgStartLoad
    from startLoad_step[OF w, of bc e] a show ?thesis
      by (auto simp: msgStartLoad store_valid_def dataset_valid_def)
  next
    case (msgLoad u h r)
    with assms(3) have hv: "hash_valid bc h" by (simp add: loads_valid_def)
    show ?thesis
    proof (cases "inLoad s")
      case True
      with w obtain s' where s': "step bc e s (msgLoad u h r) = Some (s', [(r, RErr None)])"
        "pending s' = AList.update u h (pending s)" "active s' = active s" "inLoad s'"
        by (auto simp: wf_state_def pending_def active_def)
      from step_wf[OF w, of bc e "msgLoad u h r"] s'(1) have "wf_state s'" by simp
      with s' a p[OF True] hv show ?thesis
        by (simp add: msgLoad store_valid_def dataset_valid_update)
    next
      case False
      with assms(2) show ?thesis by (simp add: msgLoad)
    qed
  next
    case msgCommit
    show ?thesis
    proof (cases "inLoad s")
      case True
      from commit_step[OF w True, of bc e] p[OF True] show ?thesis
        by (auto simp: msgCommit store_valid_def)
    next
      case False
      with assms(2) show ?thesis by (simp add: msgCommit)
    qed
  next
    case (msgRollback t)
    from step_wf[OF w, of bc e "msgRollback t"] obtain s' out
      where s': "step bc e s (msgRollback t) = Some (s', out)" "wf_state s'" by blast
    then have "active s' = active s" "inLoad s' \<longrightarrow> inLoad s \<and> pending s' = pending s"
      by (auto simp: active_def pending_def split: if_splits)
    with s' a p show ?thesis
      by (auto simp: msgRollback store_valid_def)
  next
    case (msgGetCost r)
    with assms(2) show ?thesis by simp
  next
    case (msgSetCost c)
    from step_wf[OF w, of bc e "msgSetCost c"] a p show ?thesis
      by (auto simp: msgSetCost store_valid_def active_def pending_def)
  next
    case (msgList r)
    with assms(2) list_reply[OF w] show ?thesis by simp
  qed
qed

lemma run_valid:
  assumes "bcrypt_costs bc" and "store_valid bc s" and "loads_valid bc evs"
  shows "\<exists>s' out. run bc s evs = Some (s', out) \<and> store_valid bc s'"
  using assms(2,3)
proof (induction evs arbitrary: s)
  case Nil
  then show ?case by simp
next
  case (Cons ev evs)
  obtain e m where ev: "ev = (e, m)" by (cases ev)
  with Cons.prems(2) have one: "loads_valid bc [(e, m)]" and rest: "loads_valid bc evs"
    by (auto simp: loads_valid_def)
  from step_valid[OF assms(1) Cons.prems(1) one] obtain s1 out1
    where s1: "step bc e s m = Some (s1, out1)" "store_valid bc s1" by blast
  from Cons.IH[OF s1(2) rest] obtain s2 out2
    where "run bc s1 evs = Some (s2, out2)" "store_valid bc s2" by blast
  with s1 ev show ?case by simp
qed

lemma init_valid: "store_valid bc init"
  using wf_init by (simp add: store_valid_def dataset_valid_def active_def init_def newAuthData_def)

lemma hash_valid_10: "hash_valid toy_bcrypt ''$2a$10$pw''"
  by (simp add: hash_valid_def toy_Cost_10 MinCost_def word_sle_eq)

section \<open>Facts about the file format\<close>

lemma space_runes_props:
  assumes "p \<in> set space_runes"
  shows "p \<noteq> []" and "CHR '':'' \<notin> set p" and "CHR ''$'' \<notin> set p"
    and "last p = CHR 0x0A \<longrightarrow> p = [CHR 0x0A]"
    and "\<not> is_digit (last p)"
  using assms by (auto simp: space_runes_def is_digit_def)

lemma prefix_sep:
  assumes "prefix p (u @ c # rest)" and "c \<notin> set p"
  shows "prefix p u"
  using assms by (auto simp: prefix_append prefix_Cons)

lemma suffix_sep:
  assumes "suffix p (u @ c # h)" and "c \<notin> set p"
  shows "suffix p h"
  using assms by (auto simp: suffix_append suffix_Cons)

lemma find_SomeD: "find P xs = Some x \<Longrightarrow> x \<in> set xs \<and> P x"
  by (induction xs) (auto split: if_splits)

lemma leading_space_None: "leading_space s = None \<longleftrightarrow> (\<forall>p \<in> set space_runes. \<not> prefix p s)"
  by (auto simp: leading_space_def find_None_iff)

lemma trailing_space_None: "trailing_space s = None \<longleftrightarrow> (\<forall>p \<in> set space_runes. \<not> suffix p s)"
  by (auto simp: trailing_space_def find_None_iff)

lemma TrimLeft_None: "leading_space s = None \<Longrightarrow> TrimLeft s = s"
  by simp

lemma TrimRight_None: "trailing_space s = None \<Longrightarrow> TrimRight s = s"
  by simp

lemma leading_space_sep:
  assumes "leading_space u = None" and "c = CHR '':''"
  shows "leading_space (u @ c # rest) = None"
  using assms space_runes_props(2) by (auto simp: leading_space_None dest: prefix_sep)

lemma trailing_space_sep:
  assumes "trailing_space h = None" and "c = CHR '':''"
  shows "trailing_space (u @ c # h) = None"
  using assms space_runes_props(2) by (auto simp: trailing_space_None dest: suffix_sep)

lemma suffix_last: "suffix p s \<Longrightarrow> p \<noteq> [] \<Longrightarrow> last p = last s"
  by (auto simp: suffix_def)

lemma trailing_space_nl: "trailing_space (x @ [CHR 0x0A]) = Some [CHR 0x0A]"
proof -
  have "suffix [CHR 0x0A] (x @ [CHR 0x0A])"
    by (simp add: suffix_def)
  moreover have "[CHR 0x0A] \<in> set space_runes"
    by (simp add: space_runes_def)
  ultimately obtain p where p: "trailing_space (x @ [CHR 0x0A]) = Some p"
    by (cases "trailing_space (x @ [CHR 0x0A])") (auto simp: trailing_space_None)
  then have ps: "p \<in> set space_runes" "suffix p (x @ [CHR 0x0A])"
    by (auto simp: trailing_space_def dest: find_SomeD)
  from ps(1) have "p \<noteq> []" by (rule space_runes_props(1))
  with ps(2) have "last p = CHR 0x0A" using suffix_last[of p "x @ [CHR 0x0A]"] by simp
  with space_runes_props(4)[OF ps(1)] have "p = [CHR 0x0A]" by simp
  with p show ?thesis by simp
qed

lemma TrimRight_nl: "TrimRight (x @ [CHR 0x0A]) = TrimRight x"
  by (subst TrimRight.simps) (simp add: trailing_space_nl)

lemma TrimSpace_entry_line:
  assumes "leading_space u = None" and "trailing_space h = None"
  shows "TrimSpace (u @ CHR '':'' # h @ [CHR 0x0A]) = u @ CHR '':'' # h"
proof -
  have "TrimLeft (u @ CHR '':'' # h @ [CHR 0x0A]) = u @ CHR '':'' # h @ [CHR 0x0A]"
    using leading_space_sep[OF assms(1)] by (intro TrimLeft_None) simp
  moreover have "TrimRight ((u @ CHR '':'' # h) @ [CHR 0x0A]) = TrimRight (u @ CHR '':'' # h)"
    by (rule TrimRight_nl)
  moreover have "TrimRight (u @ CHR '':'' # h) = u @ CHR '':'' # h"
    using trailing_space_sep[OF assms(2)] by (intro TrimRight_None) simp
  ultimately show ?thesis by (simp add: TrimSpace_def)
qed

lemma TrimRight_decomp: "\<exists>t. s = TrimRight s @ t \<and> CHR '':'' \<notin> set t"
proof (induction s rule: TrimRight.induct)
  case (1 s)
  show ?case
  proof (cases "trailing_space s")
    case None
    then show ?thesis by simp
  next
    case (Some p)
    then have p: "p \<in> set space_runes" "suffix p s"
      by (auto simp: trailing_space_def dest: find_SomeD)
    then have s: "s = take (length s - length p) s @ p"
      by (auto simp: suffix_def)
    from "1.IH"[OF Some] obtain t
      where t: "take (length s - length p) s = TrimRight (take (length s - length p) s) @ t"
        "CHR '':'' \<notin> set t" by blast
    have tr: "TrimRight s = TrimRight (take (length s - length p) s)"
      by (subst TrimRight.simps) (simp add: Some)
    have "s = TrimRight s @ (t @ p)"
      using s t(1) tr by (metis append.assoc)
    moreover have "CHR '':'' \<notin> set (t @ p)"
      using t(2) space_runes_props(2)[OF p(1)] by simp
    ultimately show ?thesis by blast
  qed
qed

lemma valid_username_facts:
  assumes "UsernameIsValid u = Some True" and "leading_space u = None"
  shows "u \<noteq> []" and "hd u \<noteq> CHR ''$''" and "hd u \<noteq> CHR ''#''" and "CHR '':'' \<notin> set u"
proof -
  have l: "TrimSpace u = TrimRight u"
    using assms(2) by (simp add: TrimSpace_def)
  from TrimRight_decomp[of u] obtain t where t: "u = TrimRight u @ t" "CHR '':'' \<notin> set t"
    by blast
  from assms(1) l have ne: "TrimRight u \<noteq> []" and h: "hd (TrimRight u) \<noteq> CHR ''$''"
    "hd (TrimRight u) \<noteq> CHR ''#''" and c: "CHR '':'' \<notin> set (TrimRight u)"
    by (auto simp: UsernameIsValid_def Let_def split: list.splits if_splits)
  from ne t(1) show "u \<noteq> []" by auto
  from ne t(1) have "hd u = hd (TrimRight u)" by (metis hd_append2)
  with h show "hd u \<noteq> CHR ''$''" "hd u \<noteq> CHR ''#''" by simp_all
  from c t show "CHR '':'' \<notin> set u" by (metis Un_iff set_append)
qed

lemma Split_none: "c \<notin> set s \<Longrightarrow> Split s c = [s]"
  by (induction s) auto

lemma Split_one: "c \<notin> set u \<Longrightarrow> c \<notin> set h \<Longrightarrow> Split (u @ c # h) c = [u, h]"
  by (induction u) (auto simp: Split_none)

lemma readLine_entry:
  assumes "line_safe (u, h)"
  shows "readLine r (u @ CHR '':'' # h @ [CHR 0x0A]) = [msgLoad u h r]"
proof -
  from assms have v: "UsernameIsValid u = Some True" and ls: "leading_space u = None"
    and ts: "trailing_space h = None" and ch: "CHR '':'' \<notin> set h"
    by (auto simp: line_safe_def)
  note f = valid_username_facts[OF v ls]
  have t: "TrimSpace (u @ CHR '':'' # h @ [CHR 0x0A]) = u @ CHR '':'' # h"
    by (rule TrimSpace_entry_line[OF ls ts])
  have len: "\<not> length (u @ CHR '':'' # h) < 2"
    using f(1) by (cases u) auto
  then have len': "\<not> (u = [] \<and> h = [])"
    using f(1) by simp
  have hd: "hd (u @ CHR '':'' # h) = hd u"
    using f(1) by simp
  show ?thesis
    using f(2,3) len
    by (simp add: readLine_def Let_def t hd loadFields_def Split_one[OF f(4) ch] del: length_0_conv)
qed

lemma ReadLines_line:
  "CHR 0x0A \<notin> set x \<Longrightarrow> ReadLines acc (x @ CHR 0x0A # rest) = (acc @ x @ [CHR 0x0A]) # ReadLines [] rest"
  by (induction x arbitrary: acc) auto

lemma is_digit_not_special:
  assumes "is_digit c"
  shows "c \<noteq> CHR ''-''" "c \<noteq> CHR ''+''" "c \<noteq> CHR '':''" "c \<noteq> CHR ''$''" "c \<noteq> CHR 0x0A"
  using assms by (auto simp: is_digit_def)

lemma dec_nonempty: "dec n \<noteq> []"
  by (subst dec.simps) simp

lemma dec_digits: "list_all is_digit (dec n)"
proof (induction n rule: dec.induct)
  case (1 n)
  show ?case
  proof (cases "n < 10")
    case True
    then show ?thesis by (subst dec.simps) (simp add: digit_ok)
  next
    case False
    with "1.IH" show ?thesis by (subst dec.simps) (simp add: digit_ok)
  qed
qed

lemma digits_val_snoc: "digits_val (xs @ [d]) = 10 * digits_val xs + digit_val d"
  by (simp add: digits_val_def)

lemma digits_val_dec: "digits_val (dec n) = n"
proof (induction n rule: dec.induct)
  case (1 n)
  show ?case
  proof (cases "n < 10")
    case True
    then show ?thesis by (subst dec.simps) (simp add: digit_ok digits_val_def)
  next
    case False
    with "1.IH" show ?thesis
      by (subst dec.simps) (simp add: digit_ok digits_val_snoc)
  qed
qed

lemma Atoi_digits:
  assumes "ds \<noteq> []" and "list_all is_digit ds"
  shows "Atoi ds = (if 2 ^ 63 \<le> int (digits_val ds) then None
                    else Some (word_of_int (int (digits_val ds))))"
proof -
  from assms obtain d rest where ds: "ds = d # rest" and d: "is_digit d"
    by (cases ds) auto
  have "(0::int) \<le> int (digits_val ds)" by simp
  moreover have "(0::int) < 2 ^ 63" by simp
  ultimately have "\<not> int (digits_val ds) < - (2 ^ 63)" by linarith
  with assms show ?thesis
    using is_digit_not_special(1,2)[OF d]
    by (simp add: Atoi_def ds Let_def)
qed

lemma Atoi_minus:
  assumes "ds \<noteq> []" and "list_all is_digit ds"
  shows "Atoi (CHR ''-'' # ds) = (if - int (digits_val ds) < - (2 ^ 63) then None
                    else Some (word_of_int (- int (digits_val ds))))"
proof -
  have "(0::int) \<le> int (digits_val ds)" by simp
  moreover have "(0::int) < 2 ^ 63" by simp
  ultimately have "\<not> 2 ^ 63 \<le> - int (digits_val ds)" by linarith
  with assms show ?thesis
    by (simp add: Atoi_def Let_def)
qed

lemma Atoi_Itoa: "Atoi (Itoa c) = Some c"
proof (cases "sint c < 0")
  case True
  define n where "n = nat (- sint c)"
  have i: "Itoa c = CHR ''-'' # dec n"
    using True by (simp add: Itoa_def n_def)
  have lo: "- (2 ^ 63) \<le> sint c"
    using sint_ge[of c] by simp
  have v: "- int n = sint c"
    using True by (simp add: n_def)
  show ?thesis
    using lo by (simp add: i Atoi_minus dec_nonempty dec_digits digits_val_dec v)
next
  case False
  define n where "n = nat (sint c)"
  have i: "Itoa c = dec n"
    using False by (simp add: Itoa_def n_def)
  have hi: "sint c < 2 ^ 63"
    using sint_lt[of c] by simp
  have v: "int n = sint c"
    using False by (simp add: n_def)
  show ?thesis
    using hi by (simp add: i Atoi_digits dec_nonempty dec_digits digits_val_dec v)
qed

lemma Itoa_shape: "\<exists>ds. ds \<noteq> [] \<and> list_all is_digit ds \<and> (Itoa c = ds \<or> Itoa c = CHR ''-'' # ds)"
proof (cases "sint c < 0")
  case True
  then have "Itoa c = CHR ''-'' # dec (nat (- sint c))" by (simp add: Itoa_def)
  then show ?thesis using dec_nonempty dec_digits by blast
next
  case False
  then have "Itoa c = dec (nat (sint c))" by (simp add: Itoa_def)
  then show ?thesis using dec_nonempty dec_digits by blast
qed

lemma Itoa_facts:
  shows "Itoa c \<noteq> []" and "is_digit (last (Itoa c))" and "CHR '':'' \<notin> set (Itoa c)"
    and "CHR 0x0A \<notin> set (Itoa c)"
proof -
  from Itoa_shape[of c] obtain ds where ds: "ds \<noteq> []" "list_all is_digit ds"
    "Itoa c = ds \<or> Itoa c = CHR ''-'' # ds" by blast
  from ds show "Itoa c \<noteq> []" by auto
  from ds(1,2) have "is_digit (last ds)"
    by (simp add: list_all_iff)
  with ds show "is_digit (last (Itoa c))" by auto
  from ds(2) have "CHR '':'' \<notin> set ds" "CHR 0x0A \<notin> set ds"
    using is_digit_not_special(3,5) by (auto simp: list_all_iff)
  with ds(3) show "CHR '':'' \<notin> set (Itoa c)" "CHR 0x0A \<notin> set (Itoa c)" by auto
qed

lemma TrimSpace_cost_line: "TrimSpace (CHR ''$'' # Itoa c @ [CHR 0x0A]) = CHR ''$'' # Itoa c"
proof -
  have "leading_space (CHR ''$'' # Itoa c @ [CHR 0x0A]) = None"
    unfolding leading_space_None
  proof
    fix p assume p: "p \<in> set space_runes"
    show "\<not> prefix p (CHR ''$'' # Itoa c @ [CHR 0x0A])"
      using space_runes_props(1,3)[OF p] by (cases p) auto
  qed
  then have l: "TrimLeft (CHR ''$'' # Itoa c @ [CHR 0x0A]) = CHR ''$'' # Itoa c @ [CHR 0x0A]"
    by (rule TrimLeft_None)
  have "trailing_space (CHR ''$'' # Itoa c) = None"
    unfolding trailing_space_None
  proof
    fix p assume p: "p \<in> set space_runes"
    show "\<not> suffix p (CHR ''$'' # Itoa c)"
    proof
      assume "suffix p (CHR ''$'' # Itoa c)"
      from suffix_last[OF this space_runes_props(1)[OF p]]
      have "last p = last (Itoa c)" using Itoa_facts(1) by simp
      with Itoa_facts(2)[of c] space_runes_props(5)[OF p] show False by simp
    qed
  qed
  then have r: "TrimRight (CHR ''$'' # Itoa c) = CHR ''$'' # Itoa c"
    by (rule TrimRight_None)
  have "TrimRight ((CHR ''$'' # Itoa c) @ [CHR 0x0A]) = TrimRight (CHR ''$'' # Itoa c)"
    by (rule TrimRight_nl)
  with l r show ?thesis by (simp add: TrimSpace_def)
qed

lemma readLine_cost: "readLine r (CHR ''$'' # Itoa c @ [CHR 0x0A]) = [msgSetCost c]"
proof -
  have len: "\<not> length (CHR ''$'' # Itoa c) < 2"
    using Itoa_facts(1)[of c] by (cases "Itoa c") auto
  have "CHR '':'' \<notin> set (CHR ''$'' # Itoa c)"
    using Itoa_facts(3) by simp
  then have sp: "Split (CHR ''$'' # Itoa c) CHR '':'' = [CHR ''$'' # Itoa c]"
    by (rule Split_none)
  show ?thesis
    using len
    by (simp add: readLine_def Let_def TrimSpace_cost_line Atoi_Itoa loadFields_def sp
        del: length_0_conv Split.simps)
qed

lemma writeFile_eq:
  "writeFile c (entries_of al) =
     (CHR ''$'' # Itoa c) @ CHR 0x0A # concat (map (\<lambda>(u, h). u @ CHR '':'' # h @ [CHR 0x0A]) al)"
  by (induction al) (auto simp: writeFile_def entries_of_def)

lemma ReadLines_entries:
  "list_all line_safe al \<Longrightarrow>
   ReadLines [] (concat (map (\<lambda>(u, h). u @ CHR '':'' # h @ [CHR 0x0A]) al))
     = map (\<lambda>(u, h). u @ CHR '':'' # h @ [CHR 0x0A]) al"
proof (induction al)
  case Nil
  then show ?case by simp
next
  case (Cons p al)
  obtain u h where p: "p = (u, h)" by (cases p)
  let ?rest = "concat (map (\<lambda>(u, h). u @ CHR '':'' # h @ [CHR 0x0A]) al)"
  from Cons.prems p have "CHR 0x0A \<notin> set (u @ CHR '':'' # h)"
    by (auto simp: line_safe_def)
  from ReadLines_line[OF this, of "[]" ?rest]
  have c1: "ReadLines [] ((u @ CHR '':'' # h) @ CHR 0x0A # ?rest)
          = (u @ CHR '':'' # h @ [CHR 0x0A]) # ReadLines [] ?rest"
    by simp
  have c2: "concat (map (\<lambda>(u, h). u @ CHR '':'' # h @ [CHR 0x0A]) (p # al))
          = (u @ CHR '':'' # h) @ CHR 0x0A # ?rest"
    by (simp add: p)
  from Cons.prems have "list_all line_safe al" by simp
  from Cons.IH[OF this] have ih: "ReadLines [] ?rest = map (\<lambda>(u, h). u @ CHR '':'' # h @ [CHR 0x0A]) al" .
  have "ReadLines [] (concat (map (\<lambda>(u, h). u @ CHR '':'' # h @ [CHR 0x0A]) (p # al)))
          = (u @ CHR '':'' # h @ [CHR 0x0A]) # map (\<lambda>(u, h). u @ CHR '':'' # h @ [CHR 0x0A]) al"
    unfolding c2 c1 ih ..
  then show ?case
    by (simp add: p)
qed

lemma readLoop_entries:
  "list_all line_safe al \<Longrightarrow>
   readLoop k (map (\<lambda>(u, h). u @ CHR '':'' # h @ [CHR 0x0A]) al) = load_msgs k al"
proof (induction al arbitrary: k)
  case Nil
  then show ?case by simp
next
  case (Cons p al)
  obtain u h where p: "p = (u, h)" by (cases p)
  from Cons.prems p have "line_safe (u, h)" by simp
  from readLine_entry[OF this] Cons show ?case
    by (simp add: p)
qed

lemma readFile_writeFile:
  assumes "list_all line_safe al"
  shows "readFile r (writeFile c (entries_of al))
           = msgStartLoad # msgSetCost c # load_msgs (Suc r) al @ [msgCommit]"
proof -
  let ?rest = "concat (map (\<lambda>(u, h). u @ CHR '':'' # h @ [CHR 0x0A]) al)"
  have "CHR 0x0A \<notin> set (CHR ''$'' # Itoa c)"
    using Itoa_facts(4) by simp
  from ReadLines_line[OF this, of "[]" ?rest]
  have "ReadLines [] ((CHR ''$'' # Itoa c) @ CHR 0x0A # ?rest)
          = (CHR ''$'' # Itoa c @ [CHR 0x0A]) # ReadLines [] ?rest"
    by (simp del: ReadLines.simps)
  then have "ReadLines [] (writeFile c (entries_of al))
          = (CHR ''$'' # Itoa c @ [CHR 0x0A]) # map (\<lambda>(u, h). u @ CHR '':'' # h @ [CHR 0x0A]) al"
    by (simp only: writeFile_eq ReadLines_entries[OF assms])
  then show ?thesis
    by (simp add: readFile_def readLine_cost readLoop_entries[OF assms])
qed

lemma load_msgs_pairs: "load_pairs (map (Pair e) (load_msgs k al)) = al"
  by (induction k al rule: load_msgs.induct) auto

lemma load_msgs_inner: "list_all (\<lambda>(e, m). \<not> boundary m) (map (Pair e) (load_msgs k al))"
  by (induction k al rule: load_msgs.induct) auto

lemma run_loads_cost:
  "run bc s (map (Pair e) (load_msgs k al)) = Some (s', out) \<Longrightarrow> cost s' = cost s"
proof (induction k al arbitrary: s out rule: load_msgs.induct)
  case (1 k)
  then show ?case by simp
next
  case (2 k u h al)
  from "2.prems" obtain s1 out1 out2
    where s1: "step bc e s (msgLoad u h k) = Some (s1, out1)"
      and r: "run bc s1 (map (Pair e) (load_msgs (Suc k) al)) = Some (s', out2)"
    by (auto split: option.splits)
  from s1 have "cost s1 = cost s"
    by (auto split: if_splits option.splits)
  with "2.IH"[OF r] show ?case by simp
qed

lemma leading_by_hd:
  assumes "s \<noteq> []" and "hd s \<notin> set (map hd space_runes)"
  shows "leading_space s = None"
  unfolding leading_space_None
proof
  fix p assume p: "p \<in> set space_runes"
  show "\<not> prefix p s"
  proof
    assume "prefix p s"
    with space_runes_props(1)[OF p] assms(1) have "hd s = hd p"
      by (cases p; cases s) auto
    with p have "hd s \<in> set (map hd space_runes)" by simp
    with assms(2) show False by simp
  qed
qed

lemma trailing_by_last:
  assumes "s \<noteq> []" and "last s \<notin> set (map last space_runes)"
  shows "trailing_space s = None"
  unfolding trailing_space_None
proof
  fix p assume p: "p \<in> set space_runes"
  show "\<not> suffix p s"
  proof
    assume "suffix p s"
    from suffix_last[OF this space_runes_props(1)[OF p]] have "last s = last p" by simp
    with p have "last s \<in> set (map last space_runes)" by simp
    with assms(2) show False by simp
  qed
qed

lemma TrimSpace_plain:
  assumes "s \<noteq> []" and "hd s \<notin> set (map hd space_runes)"
    and "last s \<notin> set (map last space_runes)"
  shows "TrimSpace s = s"
  using TrimLeft_None[OF leading_by_hd[OF assms(1,2)]]
        TrimRight_None[OF trailing_by_last[OF assms(1,3)]]
  by (simp add: TrimSpace_def)

lemma TrimSpace_space: "TrimSpace (CHR 0x20 # s) = TrimSpace s"
proof -
  have "leading_space (CHR 0x20 # s) = Some [CHR 0x20]"
    by (simp add: leading_space_def space_runes_def)
  then have "TrimLeft (CHR 0x20 # s) = TrimLeft s"
    by (subst TrimLeft.simps) simp
  then show ?thesis by (simp add: TrimSpace_def)
qed

lemma readLine_space: "readLine r (CHR 0x20 # l) = readLine r l"
  by (simp add: readLine_def TrimSpace_space)

lemma TrimSpace_bob: "TrimSpace '' bob'' = ''bob''" "TrimSpace ''bob'' = ''bob''"
  "TrimSpace ''alice'' = ''alice''"
  by (simp_all add: TrimSpace_space TrimSpace_plain space_runes_def)

lemma bob_line_safe: "line_safe (''bob'', ''$2a$10$pw'')"
proof -
  have "UsernameIsValid ''bob'' = Some True"
    by (simp add: UsernameIsValid_def TrimSpace_bob)
  moreover have "leading_space ''bob'' = None"
    by (rule leading_by_hd) (simp_all add: space_runes_def)
  moreover have "trailing_space ''$2a$10$pw'' = None"
    by (rule trailing_by_last) (simp_all add: space_runes_def)
  ultimately show ?thesis by (simp add: line_safe_def)
qed

lemma readLine_alice: "readLine r (''alice:a:b'' @ [CHR 0x0A]) = []"
proof -
  have l: "TrimLeft (''alice:a:b'' @ [CHR 0x0A]) = ''alice:a:b'' @ [CHR 0x0A]"
    by (rule TrimLeft_None, rule leading_by_hd) (simp_all add: space_runes_def)
  have "TrimRight ''alice:a:b'' = ''alice:a:b''"
    by (rule TrimRight_None, rule trailing_by_last) (simp_all add: space_runes_def)
  with l TrimRight_nl[of "''alice:a:b''"] have "TrimSpace (''alice:a:b'' @ [CHR 0x0A]) = ''alice:a:b''"
    by (simp only: TrimSpace_def)
  then show ?thesis
    by (simp add: readLine_def loadFields_def)
qed

section \<open>Claims\<close>

text \<open>
  C1. In every state of the store, \<open>Authenticate(user, pass)\<close> replies
  \<open>ErrUserDoesNotExist\<close> when the user is absent from the active dataset,
  \<open>ErrAuthenticationFailed\<close> when the user is present and the password does not match the
  stored hash (both leave the store as it is), and nil when the user is present and the
  password matches.
\<close>

theorem authenticate_outcome:
  assumes "wf_state s"
  shows "(map_of (active s) u = None \<longrightarrow>
            step bc e s (msgAuthenticate u p r) = Some (s, [(r, RErr (Some ErrUserDoesNotExist))]))
       \<and> (\<forall>h. map_of (active s) u = Some h \<and> CompareHashAndPassword bc h p \<noteq> None \<longrightarrow>
            step bc e s (msgAuthenticate u p r) = Some (s, [(r, RErr (Some ErrAuthenticationFailed))]))
       \<and> (\<forall>h. map_of (active s) u = Some h \<and> CompareHashAndPassword bc h p = None \<longrightarrow>
            (\<exists>s'. step bc e s (msgAuthenticate u p r) = Some (s', [(r, RErr None)])))"
  using assms
  by (auto simp: onCur_eq authenticate_def setCur_same split: sum.splits)

theorem authenticate_outcome_witness:
  "wf_state bob_state
   \<and> step toy_bcrypt e0 bob_state (msgAuthenticate ''ghost'' ''pw'' 7)
       = Some (bob_state, [(7, RErr (Some ErrUserDoesNotExist))])
   \<and> step toy_bcrypt e0 bob_state (msgAuthenticate ''bob'' ''no'' 7)
       = Some (bob_state, [(7, RErr (Some ErrAuthenticationFailed))])
   \<and> (\<exists>s'. step toy_bcrypt e0 bob_state (msgAuthenticate ''bob'' ''pw'' 7)
       = Some (s', [(7, RErr None)]))"
  using authenticate_outcome [OF bob_wf, of "''ghost''" toy_bcrypt e0 "''pw''" 7]
        authenticate_outcome [OF bob_wf, of "''bob''" toy_bcrypt e0 "''no''" 7]
        authenticate_outcome [OF bob_wf, of "''bob''" toy_bcrypt e0 "''pw''" 7]
  by (simp add: bob_wf bob_active toy_Compare_pw)

text \<open>
  C5. Mutating operations leave the store as it was when they fail: \<open>Add(user, pass)\<close>
  for a user that exists replies \<open>ErrUserExists\<close>, and \<open>VerifyModify(user, old, new)\<close>
  with an old password that does not match replies \<open>ErrAuthenticationFailed\<close>; in both
  cases the active dataset is unchanged and every password that matched the stored hash
  still authenticates.
\<close>

theorem add_existing_and_verifyModify_mismatch:
  assumes "wf_state s" and "map_of (active s) u = Some h"
  shows "(\<exists>s'. step bc e s (msgAdd u p r) = Some (s', [(r, RErr (Some ErrUserExists))])
              \<and> active s' = active s
              \<and> (\<forall>q e' r'. CompareHashAndPassword bc h q = None \<longrightarrow>
                    (\<exists>s''. step bc e' s' (msgAuthenticate u q r') = Some (s'', [(r', RErr None)]))))
       \<and> (CompareHashAndPassword bc h old \<noteq> None \<longrightarrow>
            (\<exists>s'. step bc e s (msgVerifyModify u old new r)
                     = Some (s', [(r, RErr (Some ErrAuthenticationFailed))])
              \<and> active s' = active s
              \<and> (\<forall>q e' r'. CompareHashAndPassword bc h q = None \<longrightarrow>
                    (\<exists>s''. step bc e' s' (msgAuthenticate u q r') = Some (s'', [(r', RErr None)])))))"
proof (intro conjI impI)
  let ?t = "capture s (msgAdd u p r)"
  have wt: "wf_state ?t" using assms(1) by simp
  have same: "setCur ?t \<lparr>data = active s\<rparr> = ?t"
    using setCur_same[OF wt] by simp
  have st: "step bc e s (msgAdd u p r) = Some (?t, [(r, RErr (Some ErrUserExists))])"
    using wt assms(2) by (simp add: onCur_eq add_def same)
  have "\<exists>s''. step bc e' ?t (msgAuthenticate u q r') = Some (s'', [(r', RErr None)])"
    if "CompareHashAndPassword bc h q = None" for q e' r'
    using authenticate_match[OF wt _ that] assms(2) by simp
  with st show "\<exists>s'. step bc e s (msgAdd u p r) = Some (s', [(r, RErr (Some ErrUserExists))])
              \<and> active s' = active s
              \<and> (\<forall>q e' r'. CompareHashAndPassword bc h q = None \<longrightarrow>
                    (\<exists>s''. step bc e' s' (msgAuthenticate u q r') = Some (s'', [(r', RErr None)])))"
    by auto
next
  assume mis: "CompareHashAndPassword bc h old \<noteq> None"
  let ?t = "capture s (msgVerifyModify u old new r)"
  have wt: "wf_state ?t" using assms(1) by simp
  have same: "setCur ?t \<lparr>data = active s\<rparr> = ?t"
    using setCur_same[OF wt] by simp
  have st: "step bc e s (msgVerifyModify u old new r)
              = Some (?t, [(r, RErr (Some ErrAuthenticationFailed))])"
    using wt assms(2) mis by (simp add: onCur_eq verifyModify_def same)
  have "\<exists>s''. step bc e' ?t (msgAuthenticate u q r') = Some (s'', [(r', RErr None)])"
    if "CompareHashAndPassword bc h q = None" for q e' r'
    using authenticate_match[OF wt _ that] assms(2) by simp
  with st show "\<exists>s'. step bc e s (msgVerifyModify u old new r)
                     = Some (s', [(r, RErr (Some ErrAuthenticationFailed))])
              \<and> active s' = active s
              \<and> (\<forall>q e' r'. CompareHashAndPassword bc h q = None \<longrightarrow>
                    (\<exists>s''. step bc e' s' (msgAuthenticate u q r') = Some (s'', [(r', RErr None)])))"
    by auto
qed

theorem add_existing_and_verifyModify_mismatch_witness:
  "wf_state bob_state \<and> map_of (active bob_state) ''bob'' = Some ''$2a$10$pw''
   \<and> CompareHashAndPassword toy_bcrypt ''$2a$10$pw'' ''no'' \<noteq> None
   \<and> CompareHashAndPassword toy_bcrypt ''$2a$10$pw'' ''pw'' = None
   \<and> (\<exists>s'. step toy_bcrypt e0 bob_state (msgAdd ''bob'' ''y'' 3) = Some (s', [(3, RErr (Some ErrUserExists))])
         \<and> active s' = active bob_state
         \<and> (\<exists>s''. step toy_bcrypt e0 s' (msgAuthenticate ''bob'' ''pw'' 4) = Some (s'', [(4, RErr None)])))
   \<and> (\<exists>s'. step toy_bcrypt e0 bob_state (msgVerifyModify ''bob'' ''no'' ''z'' 3)
               = Some (s', [(3, RErr (Some ErrAuthenticationFailed))])
         \<and> active s' = active bob_state
         \<and> (\<exists>s''. step toy_bcrypt e0 s' (msgAuthenticate ''bob'' ''pw'' 4) = Some (s'', [(4, RErr None)])))"
proof -
  have a: "map_of (active bob_state) ''bob'' = Some ''$2a$10$pw''"
    by (simp add: bob_active)
  have b: "CompareHashAndPassword toy_bcrypt ''$2a$10$pw'' ''no'' \<noteq> None"
    by (simp add: toy_Compare_pw)
  have c: "CompareHashAndPassword toy_bcrypt ''$2a$10$pw'' ''pw'' = None"
    by (simp add: toy_Compare_pw)
  from add_existing_and_verifyModify_mismatch[OF bob_wf a, where bc = toy_bcrypt and e = e0
         and p = "''y''" and r = 3 and old = "''no''" and new = "''z''"] b c
  show ?thesis using bob_wf a by blast
qed

text \<open>
  C6. \<open>Load(user, hash)\<close> replies \<open>ErrNoTransaction\<close> if and only if no load
  transaction is pending, and then changes nothing; when a transaction is pending it stores
  the pair in the pending dataset, leaves the active dataset alone and replies nil.
\<close>

theorem load_reply:
  assumes "wf_state s"
  shows "(\<not> inLoad s \<longrightarrow>
            step bc e s (msgLoad u h r) = Some (s, [(r, RErr (Some ErrNoTransaction))]))
       \<and> (inLoad s \<longrightarrow>
            (\<exists>s'. step bc e s (msgLoad u h r) = Some (s', [(r, RErr None)])
                 \<and> pending s' = AList.update u h (pending s)
                 \<and> active s' = active s \<and> inLoad s'))
       \<and> (\<exists>s' er. step bc e s (msgLoad u h r) = Some (s', [(r, RErr er)])
                 \<and> (er = Some ErrNoTransaction \<longleftrightarrow> \<not> inLoad s))"
  using assms
  by (auto simp: wf_state_def pending_def active_def)

theorem load_reply_witness:
  "wf_state bob_state \<and> \<not> inLoad bob_state \<and> wf_state loading_state \<and> inLoad loading_state
   \<and> step toy_bcrypt e0 bob_state (msgLoad ''alice'' ''H'' 5)
        = Some (bob_state, [(5, RErr (Some ErrNoTransaction))])
   \<and> (\<exists>s'. step toy_bcrypt e0 loading_state (msgLoad ''alice'' ''H'' 5) = Some (s', [(5, RErr None)])
          \<and> pending s' = [(''alice'', ''H'')] \<and> active s' = [(''bob'', ''$2a$10$pw'')])"
proof -
  have a: "\<not> inLoad bob_state" by (simp add: bob_state_def init_def)
  have b: "inLoad loading_state" by (simp add: loading_state_def)
  have c: "pending loading_state = []" "active loading_state = [(''bob'', ''$2a$10$pw'')]"
    by (simp_all add: loading_state_def pending_def active_def bob_state_def init_def setCur_def newAuthData_def)
  from load_reply[OF bob_wf, where bc = toy_bcrypt and e = e0 and u = "''alice''" and h = "''H''" and r = 5]
       load_reply[OF loading_wf, where bc = toy_bcrypt and e = e0 and u = "''alice''" and h = "''H''" and r = 5]
       a b c
  show ?thesis using bob_wf loading_wf by auto
qed

text \<open>
  C4 (as amended). When \<open>Authenticate(user, pass)\<close> succeeds on a stored hash whose cost
  is below the target cost, it replies nil; if generating a hash of the same password at the
  target cost succeeds, that hash replaces the stored one, and if it fails the store is left
  as it is. No other entry changes, and with a bcrypt whose generated hashes verify their
  password, \<open>Authenticate(user, pass)\<close> succeeds again afterwards.
\<close>

theorem authenticate_rehash:
  assumes "wf_state s" and "map_of (active s) u = Some h"
    and "CompareHashAndPassword bc h p = None"
    and "Cost bc h = Inr pcost" and "pcost <s cost s"
  shows "\<exists>s'. step bc e s (msgAuthenticate u p r) = Some (s', [(r, RErr None)])
            \<and> (\<forall>h'. GenerateFromPassword bc (rand e) p (cost s) = Inr h' \<longrightarrow>
                   map_of (active s') u = Some h')
            \<and> (\<forall>err. GenerateFromPassword bc (rand e) p (cost s) = Inl err \<longrightarrow> s' = s)
            \<and> (\<forall>v. v \<noteq> u \<longrightarrow> map_of (active s') v = map_of (active s) v)
            \<and> (bcrypt_verifies bc \<longrightarrow>
                  (\<forall>e' r'. \<exists>s''. step bc e' s' (msgAuthenticate u p r') = Some (s'', [(r', RErr None)])))"
proof (cases "GenerateFromPassword bc (rand e) p (cost s)")
  case (Inl err)
  with assms have st: "step bc e s (msgAuthenticate u p r) = Some (s, [(r, RErr None)])"
    by (simp add: onCur_eq authenticate_def setCur_same)
  moreover have "\<exists>s''. step bc e' s (msgAuthenticate u p r') = Some (s'', [(r', RErr None)])" for e' r'
    using authenticate_match[OF assms(1,2,3)] .
  ultimately show ?thesis using Inl by auto
next
  case (Inr h')
  let ?t = "setCur s \<lparr>data = AList.update u h' (active s)\<rparr>"
  from Inr assms have st: "step bc e s (msgAuthenticate u p r) = Some (?t, [(r, RErr None)])"
    by (simp add: onCur_eq authenticate_def)
  have wt: "wf_state ?t" using assms(1) by simp
  have look: "map_of (active ?t) u = Some h'"
    by (simp add: update_conv')
  have other: "map_of (active ?t) v = map_of (active s) v" if "v \<noteq> u" for v
    using that by (simp add: update_conv')
  have again: "\<exists>s''. step bc e' ?t (msgAuthenticate u p r') = Some (s'', [(r', RErr None)])"
    if "bcrypt_verifies bc" for e' r'
  proof -
    from that Inr have "CompareHashAndPassword bc h' p = None"
      by (auto simp: bcrypt_verifies_def)
    from authenticate_match[OF wt look this] show ?thesis .
  qed
  from st look other again Inr show ?thesis by auto
qed

theorem authenticate_rehash_witness:
  "wf_state (bob_state\<lparr>cost := 12\<rparr>)
   \<and> map_of (active (bob_state\<lparr>cost := 12\<rparr>)) ''bob'' = Some ''$2a$10$pw''
   \<and> CompareHashAndPassword toy_bcrypt ''$2a$10$pw'' ''pw'' = None
   \<and> Cost toy_bcrypt ''$2a$10$pw'' = Inr 10 \<and> (10 :: goint) <s cost (bob_state\<lparr>cost := 12\<rparr>)
   \<and> bcrypt_verifies toy_bcrypt
   \<and> (\<exists>s'. step toy_bcrypt e0 (bob_state\<lparr>cost := 12\<rparr>) (msgAuthenticate ''bob'' ''pw'' 7)
               = Some (s', [(7, RErr None)])
          \<and> map_of (active s') ''bob'' = Some ''$2a$12$pw''
          \<and> (\<exists>s''. step toy_bcrypt e0 s' (msgAuthenticate ''bob'' ''pw'' 8) = Some (s'', [(8, RErr None)])))"
proof -
  let ?s = "bob_state\<lparr>cost := 12\<rparr>"
  have w: "wf_state ?s" using bob_wf by (simp add: wf_state_def)
  have a: "map_of (active ?s) ''bob'' = Some ''$2a$10$pw''"
    using bob_active by (simp add: active_def)
  have c: "CompareHashAndPassword toy_bcrypt ''$2a$10$pw'' ''pw'' = None"
    by (simp add: toy_Compare_pw)
  have d: "Cost toy_bcrypt ''$2a$10$pw'' = Inr 10"
    by (simp add: toy_Cost_10)
  have l: "(10 :: goint) <s cost ?s"
    by (simp add: word_sless_alt)
  have g: "GenerateFromPassword toy_bcrypt (rand e0) ''pw'' (cost ?s) = Inr ''$2a$12$pw''"
    by (simp add: e0_def toy_Generate_12)
  from authenticate_rehash[OF w a c d l, where e = e0 and r = 7]
  obtain s' where
    1: "step toy_bcrypt e0 ?s (msgAuthenticate ''bob'' ''pw'' 7) = Some (s', [(7, RErr None)])"
    and 2: "\<forall>h'. GenerateFromPassword toy_bcrypt (rand e0) ''pw'' (cost ?s) = Inr h' \<longrightarrow>
              map_of (active s') ''bob'' = Some h'"
    and 3: "bcrypt_verifies toy_bcrypt \<longrightarrow>
              (\<forall>e' r'. \<exists>s''. step toy_bcrypt e' s' (msgAuthenticate ''bob'' ''pw'' r')
                  = Some (s'', [(r', RErr None)]))"
    by (elim exE conjE) (rule that)
  from 2 g have 4: "map_of (active s') ''bob'' = Some ''$2a$12$pw''" by simp
  from 3 toy_verifies obtain s'' where
    5: "step toy_bcrypt e0 s' (msgAuthenticate ''bob'' ''pw'' 8) = Some (s'', [(8, RErr None)])"
    by blast
  from 1 4 5 have "\<exists>s'. step toy_bcrypt e0 ?s (msgAuthenticate ''bob'' ''pw'' 7)
               = Some (s', [(7, RErr None)])
          \<and> map_of (active s') ''bob'' = Some ''$2a$12$pw''
          \<and> (\<exists>s''. step toy_bcrypt e0 s' (msgAuthenticate ''bob'' ''pw'' 8) = Some (s'', [(8, RErr None)]))"
    by blast
  with w a c d l toy_verifies show ?thesis by simp
qed

text \<open>
  The claim as stated fails: with the target cost set to 32, above bcrypt's maximum,
  generating the new hash fails and the entry of cost 10 stays in place.
\<close>

theorem authenticate_rehash_counterexample:
  "run toy_bcrypt init [(e0, msgAdd ''bob'' ''pw'' 1), (e0, msgSetCost 32)]
     = Some (bob_state\<lparr>cost := 32\<rparr>, [(1, RErr None)])
   \<and> map_of (active (bob_state\<lparr>cost := 32\<rparr>)) ''bob'' = Some ''$2a$10$pw''
   \<and> CompareHashAndPassword toy_bcrypt ''$2a$10$pw'' ''pw'' = None
   \<and> Cost toy_bcrypt ''$2a$10$pw'' = Inr 10 \<and> (10 :: goint) <s cost (bob_state\<lparr>cost := 32\<rparr>)
   \<and> step toy_bcrypt e0 (bob_state\<lparr>cost := 32\<rparr>) (msgAuthenticate ''bob'' ''pw'' 7)
        = Some (bob_state\<lparr>cost := 32\<rparr>, [(7, RErr None)])
   \<and> GenerateFromPassword toy_bcrypt (rand e0) ''pw'' 32 = Inl (InvalidCostError 32)"
proof -
  let ?s = "bob_state\<lparr>cost := 32\<rparr>"
  have g10: "toy_Generate [] ''pw'' 10 = Inr ''$2a$10$pw''"
    by (simp add: toy_Generate_def MinCost_def MaxCost_def DefaultCost_def digit_def word_sless_alt)
  have g32: "toy_Generate [] ''pw'' 32 = Inl (InvalidCostError 32)"
    by (simp add: toy_Generate_def MinCost_def MaxCost_def DefaultCost_def word_sless_alt)
  have r: "run toy_bcrypt init [(e0, msgAdd ''bob'' ''pw'' 1), (e0, msgSetCost 32)]
     = Some (?s, [(1, RErr None)])"
    by (simp add: onCur_eq wf_init add_def bob_state_def e0_def g10)
       (simp add: init_def active_def newAuthData_def DefaultCost_def g10 capture_def)
  have w: "wf_state ?s" using bob_wf by (simp add: wf_state_def)
  have act: "active ?s = [(''bob'', ''$2a$10$pw'')]"
    using bob_active by (simp add: active_def)
  have st: "step toy_bcrypt e0 ?s (msgAuthenticate ''bob'' ''pw'' 7) = Some (?s, [(7, RErr None)])"
    using setCur_same[OF w]
    by (simp add: onCur_eq[OF w] authenticate_def act toy_Compare_pw toy_Cost_10 e0_def g32
        word_sless_alt)
  show ?thesis
    using r st act by (simp add: toy_Compare_pw toy_Cost_10 word_sless_alt e0_def g32)
qed

text \<open>
  C10. \<open>UsernameIsValid\<close> does not return for the empty string or a string of white
  space only: the trimmed string is empty and \<open>l[0]\<close> is out of range.
\<close>

theorem UsernameIsValid_empty:
  "UsernameIsValid '''' = None \<and> UsernameIsValid ''   '' = None"
  by (simp add: UsernameIsValid_def TrimSpace_def leading_space_def trailing_space_def
        space_runes_def)

text \<open>
  C8. A mutation received while a load is pending is put into the replay buffer as the
  message itself, reply channel included. Here \<open>StartLoad()\<close>, then \<open>Add("carol", "x")\<close>
  with reply channel 7, then \<open>Rollback()\<close>: the \<open>Add\<close> is applied and answered with nil
  on channel 7, the buffer holds the same message, and when the buffer is flushed the runner
  handles it again and sends \<open>ErrUserExists\<close> on channel 7, a second reply on the
  caller's channel.
\<close>

theorem replay_sends_on_callers_channel:
  "run toy_bcrypt bob_state
       [(e0, msgStartLoad), (e0, msgAdd ''carol'' ''x'' 7), (e0, msgRollback 0)]
     = Some (carol_state, [(7, RErr None)])
   \<and> buffer (msgBuffer carol_state) = [msgAdd ''carol'' ''x'' 7]
   \<and> map_option snd (replay toy_bcrypt e0 carol_state) = Some [(7, RErr (Some ErrUserExists))]"
proof -
  let ?m = "msgAdd ''carol'' ''x'' 7"
  let ?t = "setCur (capture loading_state ?m)
               \<lparr>data = [(''bob'', ''$2a$10$pw''), (''carol'', ''$2a$10$x'')]\<rparr>"
  have c: "cost loading_state = 10" "inLoad loading_state"
    "msgBuffer loading_state = \<lparr>flushwait = False, buffer = []\<rparr>"
    by (simp_all add: loading_state_def bob_state_def init_def setCur_def DefaultCost_def)
  have s1: "step toy_bcrypt e0 loading_state ?m = Some (?t, [(7, RErr None)])"
    by (simp add: onCur_eq loading_wf loading_active add_def c e0_def toy_Generate_x)
  have s2: "step toy_bcrypt e0 ?t (msgRollback 0) = Some (carol_state, [])"
    by (simp add: carol_state_def c)
  have 1: "run toy_bcrypt bob_state [(e0, msgStartLoad), (e0, ?m), (e0, msgRollback 0)]
             = Some (carol_state, [(7, RErr None)])"
    by (simp only: run.simps loading_state_run s1 s2 option.case prod.case append_Nil append_Nil2)
  have 2: "buffer (msgBuffer carol_state) = [?m]"
    by (simp add: carol_state_def capture_def c)
  let ?u = "carol_state\<lparr>msgBuffer := \<lparr>flushwait = False, buffer = []\<rparr>\<rparr>"
  have wt: "wf_state ?t"
    using loading_wf by simp
  have wu: "wf_state ?u"
    using wt by (simp add: wf_state_def carol_state_def)
  have au: "map_of (active ?u) ''carol'' = Some ''$2a$10$x''"
    by (simp add: active_def carol_state_def setCur_def)
  have mb: "MsgBuffer (msgBuffer carol_state) bufferFlush
              = (\<lparr>flushwait = False, buffer = []\<rparr>, [?m])"
    by (simp add: carol_state_def capture_def c)
  have r0: "replay toy_bcrypt e0 carol_state = run toy_bcrypt ?u [(e0, ?m)]"
    by (simp only: replay_def mb prod.case list.map)
  have r1: "run toy_bcrypt ?u [(e0, ?m)] = Some (capture ?u ?m, [(7, RErr (Some ErrUserExists))])"
    by (simp only: run.simps add_existing[OF wu au] option.case prod.case append_Nil2)
  have 3: "map_option snd (replay toy_bcrypt e0 carol_state) = Some [(7, RErr (Some ErrUserExists))]"
    by (simp only: r0 r1 option.map snd_conv)
  from 1 2 3 show ?thesis by (intro conjI)
qed

text \<open>
  C2. \<open>Commit()\<close> with no load pending changes nothing. With a load pending it makes the
  pending dataset the active one and ends the transaction. After \<open>StartLoad()\<close>, any
  messages that do not start or end a transaction, and \<open>Commit()\<close>, the active dataset is
  the dataset built from the pairs handed to \<open>Load\<close> in between, whatever the store held
  before, and \<open>List()\<close> replies one entry per element of it, with that username and that
  hash, and nothing else. The dataset holds one entry per username, with the hash of the
  last \<open>Load\<close> for it, and is exactly the list of loaded pairs when their usernames are
  distinct.
\<close>

theorem commit_replaces_active:
  assumes "wf_state s"
  shows "(\<not> inLoad s \<longrightarrow> step bc e s msgCommit = Some (s, []))
       \<and> (inLoad s \<longrightarrow>
            (\<exists>s'. step bc e s msgCommit = Some (s', []) \<and> active s' = pending s \<and> \<not> inLoad s'))
       \<and> (list_all (\<lambda>(e, m). \<not> boundary m) evs \<longrightarrow>
            (\<exists>s' out. run bc s ((ea, msgStartLoad) # evs @ [(eb, msgCommit)]) = Some (s', out)
               \<and> active s' = loaded evs
               \<and> step bc e s' (msgList r) = Some (s', [(r, RList (entries_of (loaded evs)))])
               \<and> (\<exists>es. step bc e s' (msgList r) = Some (s', [(r, RList es)])
                     \<and> map (\<lambda>x. (Username x, PasswordHash x)) es = loaded evs)))
       \<and> map_of (loaded evs) = map_of (rev (load_pairs evs))
       \<and> distinct (map fst (loaded evs))
       \<and> (distinct (map fst (load_pairs evs)) \<longrightarrow> loaded evs = load_pairs evs)"
proof (intro conjI impI)
  show "step bc e s msgCommit = Some (s, [])" if "\<not> inLoad s"
    using that by simp
next
  assume "inLoad s"
  from commit_step[OF assms this, of bc e]
  show "\<exists>s'. step bc e s msgCommit = Some (s', []) \<and> active s' = pending s \<and> \<not> inLoad s'"
    by blast
next
  assume nb: "list_all (\<lambda>(e, m). \<not> boundary m) evs"
  from startLoad_step[OF assms, of bc ea] obtain s1
    where s1: "step bc ea s msgStartLoad = Some (s1, [])" "wf_state s1" "inLoad s1" "pending s1 = []"
    by blast
  from run_pending[OF s1(2,3) nb, of bc] obtain s2 out2
    where s2: "run bc s1 evs = Some (s2, out2)" "wf_state s2" "inLoad s2"
      "pending s2 = loaded evs"
    by (auto simp: loaded_def s1(4))
  from commit_step[OF s2(2,3), of bc eb] obtain s3
    where s3: "step bc eb s2 msgCommit = Some (s3, [])" "wf_state s3" "active s3 = pending s2"
    by blast
  have rn: "run bc s ((ea, msgStartLoad) # evs @ [(eb, msgCommit)]) = Some (s3, out2)"
    using s1(1) s2(1) s3(1) by (simp add: run_append)
  have act: "active s3 = loaded evs"
    using s3(3) s2(4) by simp
  have ls: "step bc e s3 (msgList r) = Some (s3, [(r, RList (entries_of (loaded evs)))])"
    using list_reply[OF s3(2), of bc e r] act by simp
  have "\<exists>es. step bc e s3 (msgList r) = Some (s3, [(r, RList es)])
           \<and> map (\<lambda>x. (Username x, PasswordHash x)) es = loaded evs"
    using ls entries_of_pairs[of "loaded evs"] by blast
  with rn act ls
  show "\<exists>s' out. run bc s ((ea, msgStartLoad) # evs @ [(eb, msgCommit)]) = Some (s', out)
               \<and> active s' = loaded evs
               \<and> step bc e s' (msgList r) = Some (s', [(r, RList (entries_of (loaded evs)))])
               \<and> (\<exists>es. step bc e s' (msgList r) = Some (s', [(r, RList es)])
                     \<and> map (\<lambda>x. (Username x, PasswordHash x)) es = loaded evs)"
    by blast
next
  show "map_of (loaded evs) = map_of (rev (load_pairs evs))"
    by (simp add: loaded_def map_of_fold_update)
next
  show "distinct (map fst (loaded evs))"
    by (simp add: loaded_def distinct_fold_update)
next
  assume "distinct (map fst (load_pairs evs))"
  then show "loaded evs = load_pairs evs"
    by (simp add: loaded_def fold_update_distinct)
qed

theorem commit_replaces_active_witness:
  "wf_state bob_state \<and> \<not> inLoad bob_state \<and> wf_state loading_state \<and> inLoad loading_state
   \<and> list_all (\<lambda>(e, m). \<not> boundary m) [(e0, msgLoad ''alice'' ''H'' 5)]
   \<and> distinct (map fst (load_pairs [(e0, msgLoad ''alice'' ''H'' 5)]))
   \<and> step toy_bcrypt e0 bob_state msgCommit = Some (bob_state, [])
   \<and> (\<exists>s'. step toy_bcrypt e0 loading_state msgCommit = Some (s', []) \<and> active s' = []
          \<and> \<not> inLoad s')
   \<and> (\<exists>s' out. run toy_bcrypt bob_state
                  [(e0, msgStartLoad), (e0, msgLoad ''alice'' ''H'' 5), (e0, msgCommit)]
                  = Some (s', out)
          \<and> active s' = [(''alice'', ''H'')]
          \<and> step toy_bcrypt e0 s' (msgList 9)
               = Some (s', [(9, RList [\<lparr>Username = ''alice'', PasswordHash = ''H''\<rparr>])]))"
proof -
  have a: "\<not> inLoad bob_state" by (simp add: bob_state_def init_def)
  have b: "inLoad loading_state" by (simp add: loading_state_def)
  have c: "pending loading_state = []"
    by (simp add: loading_state_def pending_def newAuthData_def)
  have nb: "list_all (\<lambda>(e, m). \<not> boundary m) [(e0, msgLoad ''alice'' ''H'' 5)]" by simp
  have d: "distinct (map fst (load_pairs [(e0, msgLoad ''alice'' ''H'' 5)]))" by simp
  note T = commit_replaces_active[OF bob_wf, where bc = toy_bcrypt and e = e0 and r = 9
      and evs = "[(e0, msgLoad ''alice'' ''H'' 5)]" and ea = e0 and eb = e0]
  note L = commit_replaces_active[OF loading_wf, where bc = toy_bcrypt and e = e0 and r = 9
      and evs = "[(e0, msgLoad ''alice'' ''H'' 5)]" and ea = e0 and eb = e0]
  from T[THEN conjunct1, rule_format, OF a]
  have A: "step toy_bcrypt e0 bob_state msgCommit = Some (bob_state, [])" .
  from L[THEN conjunct2, THEN conjunct1, rule_format, OF b]
  have B: "\<exists>s'. step toy_bcrypt e0 loading_state msgCommit = Some (s', []) \<and> active s' = []
          \<and> \<not> inLoad s'"
    unfolding c .
  from T[THEN conjunct2, THEN conjunct2, THEN conjunct2, THEN conjunct2, THEN conjunct2,
         rule_format, OF d]
  have ld: "loaded [(e0, msgLoad ''alice'' ''H'' 5)] = [(''alice'', ''H'')]" by simp
  from T[THEN conjunct2, THEN conjunct2, THEN conjunct1, rule_format, OF nb]
  obtain s' out es where r:
    "run toy_bcrypt bob_state
       [(e0, msgStartLoad), (e0, msgLoad ''alice'' ''H'' 5), (e0, msgCommit)] = Some (s', out)"
    "active s' = [(''alice'', ''H'')]"
    "step toy_bcrypt e0 s' (msgList 9) = Some (s', [(9, RList es)])"
    "map (\<lambda>x. (Username x, PasswordHash x)) es = [(''alice'', ''H'')]"
    unfolding ld append.simps by (elim exE conjE) (rule that)
  from r(4) obtain x where x: "es = [x]" "Username x = ''alice''" "PasswordHash x = ''H''"
    by (auto simp: map_eq_Cons_conv)
  then have "es = [\<lparr>Username = ''alice'', PasswordHash = ''H''\<rparr>]"
    by simp
  with r have C: "\<exists>s' out. run toy_bcrypt bob_state
                  [(e0, msgStartLoad), (e0, msgLoad ''alice'' ''H'' 5), (e0, msgCommit)]
                  = Some (s', out)
          \<and> active s' = [(''alice'', ''H'')]
          \<and> step toy_bcrypt e0 s' (msgList 9)
               = Some (s', [(9, RList [\<lparr>Username = ''alice'', PasswordHash = ''H''\<rparr>])])"
    by blast
  from bob_wf a loading_wf b nb d A B C show ?thesis by (intro conjI)
qed

text \<open>
  C3. \<open>Load\<close> never changes the active dataset. No sequence of \<open>StartLoad\<close>, \<open>Load\<close>,
  \<open>Rollback\<close>, \<open>List\<close> and \<open>GetCost\<close> messages changes it or the reply of \<open>List()\<close>;
  in particular after \<open>StartLoad()\<close>, any number of \<open>Load\<close> calls and \<open>Rollback()\<close>, no
  load is pending and \<open>List()\<close> replies what it replied before.
\<close>

theorem pending_not_visible:
  assumes "wf_state s"
  shows "(\<exists>s'. step bc e s (msgLoad u h r) = Some (s', [(r, RErr (if inLoad s then None else Some ErrNoTransaction))])
              \<and> active s' = active s)
       \<and> (list_all (\<lambda>(e, m). uncommitted m) evs \<longrightarrow>
            (\<exists>s' out. run bc s evs = Some (s', out) \<and> active s' = active s
               \<and> step bc e s' (msgList r) = Some (s', [(r, RList (entries_of (active s)))])))
       \<and> (\<exists>s' out. run bc s ((ea, msgStartLoad) # map (\<lambda>(e, u, h, r). (e, msgLoad u h r)) loads
                               @ [(eb, msgRollback 0)]) = Some (s', out)
              \<and> \<not> inLoad s' \<and> active s' = active s
              \<and> step bc e s' (msgList r) = Some (s', [(r, RList (entries_of (active s)))])
              \<and> step bc e s (msgList r) = Some (s, [(r, RList (entries_of (active s)))]))"
proof (intro conjI impI)
  show "\<exists>s'. step bc e s (msgLoad u h r) = Some (s', [(r, RErr (if inLoad s then None else Some ErrNoTransaction))])
              \<and> active s' = active s"
    using assms by (auto simp: wf_state_def active_def)
next
  assume "list_all (\<lambda>(e, m). uncommitted m) evs"
  from run_uncommitted[OF assms this, of bc] obtain s' out
    where r: "run bc s evs = Some (s', out)" "wf_state s'" "active s' = active s" by blast
  from list_reply[OF r(2), of bc e r] r
  show "\<exists>s' out. run bc s evs = Some (s', out) \<and> active s' = active s
               \<and> step bc e s' (msgList r) = Some (s', [(r, RList (entries_of (active s)))])"
    by auto
next
  let ?ls = "map (\<lambda>(e, u, h, r). (e, msgLoad u h r)) loads"
  let ?evs = "(ea, msgStartLoad) # ?ls"
  have "list_all (\<lambda>(e, m). uncommitted m) ?evs"
    by (induction loads) auto
  from run_uncommitted[OF assms this, of bc] obtain s1 out1
    where r1: "run bc s ?evs = Some (s1, out1)" "wf_state s1" "active s1 = active s" by blast
  from rollback_zero[OF r1(2), of bc eb] obtain s2
    where r2: "step bc eb s1 (msgRollback 0) = Some (s2, [])" "wf_state s2" "\<not> inLoad s2"
      "active s2 = active s1" by blast
  have "run bc s (?evs @ [(eb, msgRollback 0)]) = Some (s2, out1)"
    unfolding run_append r1 using r2(1) by simp
  then have "run bc s ((ea, msgStartLoad) # ?ls @ [(eb, msgRollback 0)]) = Some (s2, out1)"
    by simp
  with r2 r1 list_reply[OF r2(2), of bc e r] list_reply[OF assms, of bc e r]
  show "\<exists>s' out. run bc s ((ea, msgStartLoad) # ?ls @ [(eb, msgRollback 0)]) = Some (s', out)
              \<and> \<not> inLoad s' \<and> active s' = active s
              \<and> step bc e s' (msgList r) = Some (s', [(r, RList (entries_of (active s)))])
              \<and> step bc e s (msgList r) = Some (s, [(r, RList (entries_of (active s)))])"
    by auto
qed

theorem pending_not_visible_witness:
  "wf_state bob_state
   \<and> list_all (\<lambda>(e, m). uncommitted m) [(e0, msgStartLoad), (e0, msgLoad ''alice'' ''H'' 5)]
   \<and> (\<exists>s' out. run toy_bcrypt bob_state [(e0, msgStartLoad), (e0, msgLoad ''alice'' ''H'' 5)]
                  = Some (s', out)
         \<and> active s' = [(''bob'', ''$2a$10$pw'')])
   \<and> (\<exists>s' out. run toy_bcrypt bob_state
                  [(e0, msgStartLoad), (e0, msgLoad ''alice'' ''H'' 5), (e0, msgRollback 0)]
                  = Some (s', out)
         \<and> \<not> inLoad s' \<and> active s' = [(''bob'', ''$2a$10$pw'')])"
proof -
  have u: "list_all (\<lambda>(e, m). uncommitted m) [(e0, msgStartLoad), (e0, msgLoad ''alice'' ''H'' 5)]"
    by simp
  note T = pending_not_visible[OF bob_wf, where bc = toy_bcrypt and e = e0 and r = 9
      and evs = "[(e0, msgStartLoad), (e0, msgLoad ''alice'' ''H'' 5)]"
      and loads = "[(e0, ''alice'', ''H'', 5)]" and ea = e0 and eb = e0
      and u = "''alice''" and h = "''H''"]
  from T[THEN conjunct2, THEN conjunct1, rule_format, OF u]
  have A: "\<exists>s' out. run toy_bcrypt bob_state [(e0, msgStartLoad), (e0, msgLoad ''alice'' ''H'' 5)]
                  = Some (s', out) \<and> active s' = [(''bob'', ''$2a$10$pw'')]"
    unfolding bob_active by blast
  from T[THEN conjunct2, THEN conjunct2]
  have B: "\<exists>s' out. run toy_bcrypt bob_state
                  [(e0, msgStartLoad), (e0, msgLoad ''alice'' ''H'' 5), (e0, msgRollback 0)]
                  = Some (s', out)
         \<and> \<not> inLoad s' \<and> active s' = [(''bob'', ''$2a$10$pw'')]"
    unfolding bob_active list.map prod.case append.simps by blast
  from bob_wf u A B show ?thesis by (intro conjI)
qed

text \<open>
  C7 (as amended). With a bcrypt whose generated hashes decode to a cost of at least
  \<open>MinCost\<close>, every state reached from the initial store by messages whose \<open>Load\<close> calls
  are all given valid hashes holds only valid hashes, in the active dataset and in the
  pending one.
\<close>

theorem hashes_stay_valid:
  assumes "bcrypt_costs bc" and "loads_valid bc evs"
  shows "\<exists>s out. run bc init evs = Some (s, out) \<and> store_valid bc s"
  using run_valid[OF assms(1) init_valid assms(2)] .

theorem hashes_stay_valid_witness:
  "bcrypt_costs toy_bcrypt
   \<and> loads_valid toy_bcrypt [(e0, msgAdd ''bob'' ''pw'' 1), (e0, msgStartLoad),
                             (e0, msgLoad ''alice'' ''$2a$10$pw'' 2), (e0, msgCommit)]
   \<and> (\<exists>s out. run toy_bcrypt init [(e0, msgAdd ''bob'' ''pw'' 1), (e0, msgStartLoad),
                             (e0, msgLoad ''alice'' ''$2a$10$pw'' 2), (e0, msgCommit)] = Some (s, out)
          \<and> store_valid toy_bcrypt s)"
proof -
  have l: "loads_valid toy_bcrypt [(e0, msgAdd ''bob'' ''pw'' 1), (e0, msgStartLoad),
                             (e0, msgLoad ''alice'' ''$2a$10$pw'' 2), (e0, msgCommit)]"
    by (simp add: loads_valid_def hash_valid_10)
  from hashes_stay_valid[OF toy_costs l] toy_costs l show ?thesis by simp
qed

text \<open>
  The claim as stated fails: \<open>Load\<close> stores the bytes it is given without decoding them, so
  after \<open>StartLoad(); Load("alice", "x"); Commit()\<close> the active dataset holds a hash that
  does not decode.
\<close>

theorem hashes_stay_valid_counterexample:
  "map_option (active \<circ> fst)
     (run toy_bcrypt init [(e0, msgStartLoad), (e0, msgLoad ''alice'' ''x'' 1), (e0, msgCommit)])
     = Some [(''alice'', ''x'')]
   \<and> Cost toy_bcrypt ''x'' = Inl ErrHashTooShort
   \<and> \<not> hash_valid toy_bcrypt ''x''"
  by (simp add: init_def active_def newAuthData_def hash_valid_def toy_Cost_def)

text \<open>
  C9 (as amended). Take a store whose entries each fit a line of the file: the username is
  valid, does not begin with white space and holds no line feed, and the hash holds no colon
  and no line feed and does not end with white space. Writing the cost directive and one
  line per entry, in whatever order \<open>List()\<close> enumerates them, and reading the file back
  into any store leaves that store with exactly the written entries as its active dataset,
  the written cost as its target cost, and no load pending.
\<close>

theorem file_round_trip:
  assumes "wf_state s0" and "list_all line_safe al" and "distinct (map fst al)"
    and "set al = set (active s)"
  shows "\<exists>s' out. run bc s0 (map (Pair e) (readFile r (writeFile (cost s) (entries_of al))))
                      = Some (s', out)
            \<and> active s' = al \<and> set (active s') = set (active s) \<and> cost s' = cost s
            \<and> \<not> inLoad s'"
proof -
  let ?ls = "map (Pair e) (load_msgs (Suc r) al)"
  from startLoad_step[OF assms(1), of bc e] obtain s1
    where s1: "step bc e s0 msgStartLoad = Some (s1, [])" "wf_state s1" "inLoad s1" "pending s1 = []"
    by blast
  let ?s2 = "s1\<lparr>cost := cost s\<rparr>"
  have s2: "step bc e s1 (msgSetCost (cost s)) = Some (?s2, [])" by simp
  have w2: "wf_state ?s2" "inLoad ?s2" "pending ?s2 = []"
    using s1 by (simp_all add: wf_state_def pending_def)
  from run_pending[OF w2(1,2) load_msgs_inner, of bc e "Suc r" al] obtain s3 out3
    where s3: "run bc ?s2 ?ls = Some (s3, out3)" "wf_state s3" "inLoad s3"
      "pending s3 = fold (\<lambda>(u, h) al. AList.update u h al) al []"
    by (auto simp: load_msgs_pairs w2(3))
  from assms(3) have p3: "pending s3 = al"
    by (simp add: s3(4) fold_update_distinct)
  from run_loads_cost[OF s3(1)] have c3: "cost s3 = cost s" by simp
  from commit_step[OF s3(2,3), of bc e] obtain s4
    where s4: "step bc e s3 msgCommit = Some (s4, [])" "\<not> inLoad s4" "active s4 = pending s3"
      "cost s4 = cost s3"
    by blast
  have "run bc s0 ((e, msgStartLoad) # (e, msgSetCost (cost s)) # ?ls @ [(e, msgCommit)])
          = Some (s4, out3)"
    using s1(1) s3(1) s4(1) by (simp add: run_append)
  then have "run bc s0 (map (Pair e) (readFile r (writeFile (cost s) (entries_of al))))
          = Some (s4, out3)"
    by (simp add: readFile_writeFile[OF assms(2)])
  with s4 p3 c3 assms(4) show ?thesis by auto
qed

theorem file_round_trip_witness:
  "wf_state init \<and> list_all line_safe [(''bob'', ''$2a$10$pw'')]
   \<and> distinct (map fst [(''bob'', ''$2a$10$pw'')])
   \<and> set [(''bob'', ''$2a$10$pw'')] = set (active bob_state)
   \<and> (\<exists>s' out. run toy_bcrypt init
          (map (Pair e0) (readFile 0 (writeFile (cost bob_state) (entries_of [(''bob'', ''$2a$10$pw'')]))))
          = Some (s', out)
        \<and> active s' = [(''bob'', ''$2a$10$pw'')] \<and> cost s' = cost bob_state \<and> \<not> inLoad s')"
proof -
  have a: "list_all line_safe [(''bob'', ''$2a$10$pw'')]"
    by (simp add: bob_line_safe)
  have b: "distinct (map fst [(''bob'', ''$2a$10$pw'')])" by simp
  have c: "set [(''bob'', ''$2a$10$pw'')] = set (active bob_state)"
    by (simp add: bob_active)
  from file_round_trip[OF wf_init a b c, where bc = toy_bcrypt and e = e0 and r = 0]
  have "\<exists>s' out. run toy_bcrypt init
          (map (Pair e0) (readFile 0 (writeFile (cost bob_state) (entries_of [(''bob'', ''$2a$10$pw'')]))))
          = Some (s', out)
        \<and> active s' = [(''bob'', ''$2a$10$pw'')] \<and> cost s' = cost bob_state \<and> \<not> inLoad s'"
    by blast
  with wf_init a b c show ?thesis by (intro conjI)
qed

text \<open>
  The claim as stated fails for valid usernames alone. The username " bob" is valid but its
  line is trimmed on reading, so it comes back as "bob"; the entry of "alice" with the hash
  "a:b" splits into three fields and is skipped.
\<close>

theorem file_round_trip_counterexample:
  "UsernameIsValid '' bob'' = Some True \<and> UsernameIsValid ''alice'' = Some True
   \<and> readFile 0 (writeFile 10 (entries_of [('' bob'', ''$2a$10$pw''), (''alice'', ''a:b'')]))
       = [msgStartLoad, msgSetCost 10, msgLoad ''bob'' ''$2a$10$pw'' 1, msgCommit]
   \<and> map_option (active \<circ> fst)
        (run toy_bcrypt init
           (map (Pair e0) [msgStartLoad, msgSetCost 10, msgLoad ''bob'' ''$2a$10$pw'' 1, msgCommit]))
       = Some [(''bob'', ''$2a$10$pw'')]"
proof -
  have v: "UsernameIsValid '' bob'' = Some True" "UsernameIsValid ''alice'' = Some True"
    by (simp_all add: UsernameIsValid_def TrimSpace_bob)
  let ?l2 = "''alice:a:b'' @ [CHR 0x0A]"
  let ?l1 = "CHR 0x20 # ''bob'' @ CHR '':'' # ''$2a$10$pw'' @ [CHR 0x0A]"
  have f: "writeFile 10 (entries_of [('' bob'', ''$2a$10$pw''), (''alice'', ''a:b'')])
             = (CHR ''$'' # Itoa 10) @ CHR 0x0A # ('' bob:$2a$10$pw'' @ CHR 0x0A # (''alice:a:b'' @ CHR 0x0A # []))"
    by (simp add: writeFile_def entries_of_def)
  have n0: "CHR 0x0A \<notin> set (CHR ''$'' # Itoa 10)"
    using Itoa_facts(4) by simp
  have n1: "CHR 0x0A \<notin> set '' bob:$2a$10$pw''" by simp
  have n2: "CHR 0x0A \<notin> set ''alice:a:b''" by simp
  have ls: "ReadLines [] (writeFile 10 (entries_of [('' bob'', ''$2a$10$pw''), (''alice'', ''a:b'')]))
              = [CHR ''$'' # Itoa 10 @ [CHR 0x0A], ?l1, ?l2]"
    unfolding f ReadLines_line[OF n0] ReadLines_line[OF n1] ReadLines_line[OF n2] by simp
  have r1: "readLine (Suc 0) ?l1 = [msgLoad ''bob'' ''$2a$10$pw'' (Suc 0)]"
    unfolding readLine_space by (rule readLine_entry[OF bob_line_safe])
  have rf: "readFile 0 (writeFile 10 (entries_of [('' bob'', ''$2a$10$pw''), (''alice'', ''a:b'')]))
       = [msgStartLoad, msgSetCost 10, msgLoad ''bob'' ''$2a$10$pw'' 1, msgCommit]"
    unfolding readFile_def ls
    by (simp add: readLine_cost r1 readLine_alice del: append.simps One_nat_def)
  have rn: "map_option (active \<circ> fst)
        (run toy_bcrypt init
           (map (Pair e0) [msgStartLoad, msgSetCost 10, msgLoad ''bob'' ''$2a$10$pw'' 1, msgCommit]))
       = Some [(''bob'', ''$2a$10$pw'')]"
    by (simp add: init_def active_def newAuthData_def)
  from v rf rn show ?thesis by (intro conjI)
qed

end
